theory Spec2Isabelle
  imports Main "HOL-Library.Multiset"
begin

section \<open>Conventions of the embedding\<close>

text \<open>
  A random-access range \<open>[first, last)\<close> is modelled by the list of its elements; an
  iterator into the range is the offset from \<open>first\<close> (a natural number), so \<open>last\<close> is the
  length of the list.  Offsets are unbounded: the wrap-around of the 64-bit difference type
  is out of reach for ranges that fit in memory.  A moved-from element keeps its value in the
  model; no function below reads a moved-from cell before it is written again.

  Tasks forked by \<open>cilk_spawn\<close> or \<open>cilk_for\<close> that work on disjoint memory are executed one
  after the other (the serial elision of the Cilk program).  The one place where tasks share
  a mutable cell, the atomic index of \<open>find2\<close>, is modelled by an interleaving semantics
  driven by an explicit schedule.

  Functions of the C++ standard library are modelled by what the standard specifies:
  \<open>std::find\<close>, \<open>std::stable_sort\<close>, \<open>std::lower_bound\<close> and \<open>std::upper_bound\<close> have a result
  that the standard determines and are given as functions; \<open>std::partition\<close> does not fix the
  order within the two groups, so the parallel partition takes the implementation of
  \<open>std::partition\<close> as a parameter.
\<close>

section \<open>cilk\_algorithm.h: transform\<close>

text \<open>
  \<open>transform\<close> reads and writes through two iterators, so memory is a store from addresses
  to values and an iterator is an address.  The function returns a value of the output
  iterator type; its two \<open>return\<close> statements hand back \<open>first\<close> and the element
  \<open>*(d_first + range_width)\<close>, so the model takes the conversion \<open>to_iter\<close> from an element
  to an iterator that the second \<open>return\<close> relies on.
\<close>

type_synonym 'v memory = "nat \<Rightarrow> 'v"

text \<open>The \<open>cilk_for\<close> loop of \<open>transform\<close>, iterations in increasing order.\<close>

definition transform_loop ::
  "nat \<Rightarrow> nat \<Rightarrow> ('v \<Rightarrow> 'v) \<Rightarrow> nat \<Rightarrow> 'v memory \<Rightarrow> 'v memory" where
  "transform_loop first d_first transform_func range_width mem =
     fold (\<lambda>diff m. m(d_first + diff := transform_func (m (first + diff))))
       [0..<range_width] mem"

definition transform ::
  "('v \<Rightarrow> nat) \<Rightarrow> nat \<Rightarrow> nat \<Rightarrow> nat \<Rightarrow> ('v \<Rightarrow> 'v) \<Rightarrow> 'v memory \<Rightarrow> nat \<times> 'v memory" where
  "transform to_iter first last' d_first transform_func mem =
     (if first \<ge> last' then (first, mem)
      else (let range_width = last' - first;
                mem' = transform_loop first d_first transform_func range_width mem
            in (to_iter (mem' (d_first + range_width)), mem')))"

section \<open>cilk\_algorithm.h: find and find2\<close>

definition BINARY_GRAIN_SIZE :: nat where
  "BINARY_GRAIN_SIZE = 2000"

definition FIND2_GRAIN_SIZE :: nat where
  "FIND2_GRAIN_SIZE = 2400"

text \<open>
  \<open>std::find\<close>: the offset of the first element equal to the value, the length of the range
  when there is none.
\<close>

fun std_find :: "'a list \<Rightarrow> 'a \<Rightarrow> nat" where
  "std_find [] v = 0"
| "std_find (x # xs) v = (if x = v then 0 else Suc (std_find xs v))"

function find_cilk :: "'a list \<Rightarrow> 'a \<Rightarrow> nat" where
  "find_cilk xs v =
     (if length xs < BINARY_GRAIN_SIZE then std_find xs v
      else (let middle = length xs div 2;
                left_find = find_cilk (take middle xs) v;
                right_find = middle + find_cilk (drop middle xs) v
            in if left_find \<noteq> middle then left_find else right_find))"
  by pat_completeness auto
termination
  by (relation "measure (\<lambda>(xs, v). length xs)") (auto simp: BINARY_GRAIN_SIZE_def)

declare find_cilk.simps [simp del]

subsection \<open>find2: tasks sharing the atomic index\<close>

text \<open>
  A task is an activation of \<open>__find2\<close> between two accesses to the atomic \<open>idx\<close>:
  \<^item> \<open>Call start end\<close>: the activation has not yet read \<open>idx\<close> for the test \<open>start < idx\<close>;
  \<^item> \<open>Loop r\<close>: a leaf has found a match at offset \<open>r\<close> and is about to load \<open>z = idx\<close>
    (the initialisation or the increment of the \<open>for\<close> loop);
  \<^item> \<open>Cas r z\<close>: the leaf has loaded \<open>z\<close>, found \<open>r < z\<close>, and is about to execute
    \<open>idx.compare_exchange_weak(z, r)\<close>.
  A configuration is the value of \<open>idx\<close> and the pool of unfinished tasks.
\<close>

datatype task = Call nat nat | Loop nat | Cas nat nat

type_synonym config = "nat \<times> task list"

text \<open>
  One atomic step of a task: the new value of \<open>idx\<close> and the tasks that replace it (none when
  the activation returns, two when it forks).  \<open>spurious\<close> says whether a weak
  compare-exchange that could succeed fails all the same.
\<close>

fun task_step :: "'a list \<Rightarrow> 'a \<Rightarrow> bool \<Rightarrow> nat \<Rightarrow> task \<Rightarrow> nat \<times> task list" where
  "task_step xs v spurious idx (Call start end) =
     (if start < idx then
        (if end - start < FIND2_GRAIN_SIZE then
           (let r = start + std_find (take (end - start) (drop start xs)) v
            in if r < end then (idx, [Loop r]) else (idx, []))
         else
           (let middle = start + (end - start) div 2
            in (idx, [Call start middle, Call middle end])))
      else (idx, []))"
| "task_step xs v spurious idx (Loop r) =
     (if r < idx then (idx, [Cas r idx]) else (idx, []))"
| "task_step xs v spurious idx (Cas r z) =
     (if idx = z \<and> \<not> spurious then (r, [Loop r]) else (idx, [Loop r]))"

text \<open>
  A schedule is the list of choices of the runtime: which task of the pool runs next, and
  whether its compare-exchange fails spuriously.  A choice that names no task leaves the
  configuration as it is.
\<close>

type_synonym schedule = "(nat \<times> bool) list"

definition sched_step :: "'a list \<Rightarrow> 'a \<Rightarrow> nat \<times> bool \<Rightarrow> config \<Rightarrow> config" where
  "sched_step xs v choice c =
     (case choice of (i, spurious) \<Rightarrow>
      case c of (idx, ts) \<Rightarrow>
        if i < length ts then
          (case task_step xs v spurious idx (ts ! i) of
             (idx', new) \<Rightarrow> (idx', take i ts @ new @ drop (Suc i) ts))
        else (idx, ts))"

definition run :: "'a list \<Rightarrow> 'a \<Rightarrow> schedule \<Rightarrow> config \<Rightarrow> config" where
  "run xs v sched c = fold (sched_step xs v) sched c"

text \<open>The configuration in which \<open>find2\<close> calls \<open>__find2(first, 0, last - first, value, idx)\<close>.\<close>

definition find2_init :: "'a list \<Rightarrow> config" where
  "find2_init xs = (length xs, [Call 0 (length xs)])"

text \<open>
  \<open>find2\<close> under a schedule: the result is \<open>first + idx\<close> once every task has returned, and
  \<open>None\<close> when the schedule ends before that.
\<close>

definition find2 :: "'a list \<Rightarrow> 'a \<Rightarrow> schedule \<Rightarrow> nat option" where
  "find2 xs v sched =
     (if length xs \<le> 2 * FIND2_GRAIN_SIZE then Some (std_find xs v)
      else (case run xs v sched (find2_init xs) of
              (idx, []) \<Rightarrow> Some idx
            | (idx, t # ts) \<Rightarrow> None))"

subsection \<open>Invariant of find2\<close>

text \<open>
  \<open>match_or_end\<close>: an offset that is the end of the range or the position of an element equal
  to the value.  \<open>task_ok\<close>: what every task in the pool satisfies.  \<open>covers\<close>: the task is
  the one that will report the match at position \<open>f\<close>.
\<close>

definition match_or_end :: "'a list \<Rightarrow> 'a \<Rightarrow> nat \<Rightarrow> bool" where
  "match_or_end xs v i \<longleftrightarrow> i = length xs \<or> (i < length xs \<and> xs ! i = v)"

fun task_ok :: "'a list \<Rightarrow> 'a \<Rightarrow> task \<Rightarrow> bool" where
  "task_ok xs v (Call start end) \<longleftrightarrow> start \<le> end \<and> end \<le> length xs"
| "task_ok xs v (Loop r) \<longleftrightarrow> r < length xs \<and> xs ! r = v"
| "task_ok xs v (Cas r z) \<longleftrightarrow> r < length xs \<and> xs ! r = v \<and> r < z"

fun covers :: "task \<Rightarrow> nat \<Rightarrow> bool" where
  "covers (Call start end) f \<longleftrightarrow> start \<le> f \<and> f < end"
| "covers (Loop r) f \<longleftrightarrow> r = f"
| "covers (Cas r z) f \<longleftrightarrow> r = f"

definition find2_inv :: "'a list \<Rightarrow> 'a \<Rightarrow> config \<Rightarrow> bool" where
  "find2_inv xs v c \<longleftrightarrow>
     (case c of (idx, ts) \<Rightarrow>
        match_or_end xs v idx \<and> list_all (task_ok xs v) ts \<and>
        (idx = std_find xs v \<or> list_ex (\<lambda>t. covers t (std_find xs v)) ts))"

subsection \<open>An execution of find2\<close>

text \<open>
  A range of 5002 numbers with the value 1 at the offsets 1300 and 3601 and 0 elsewhere, and a
  schedule for \<open>find2\<close> on it.  The leaf on the right reports its match first, a task behind
  that match is pruned, the leaf on the left loses one compare-exchange against the stored
  value, fails a second one spuriously and wins the third.
\<close>

definition example_range :: "nat list" where
  "example_range = replicate 1300 0 @ 1 # replicate 2300 0 @ 1 # replicate 1400 0"

definition example_prefix :: schedule where
  "example_prefix =
     [(0, False), (0, False), (2, False), (2, False), (1, False), (1, False), (2, False)]"

definition example_schedule :: schedule where
  "example_schedule =
     example_prefix @
     [(2, False), (3, False), (1, False), (1, False), (1, True), (1, False), (1, False),
      (2, False), (1, False), (0, False)]"

section \<open>cilk\_stable\_sort.h\<close>

definition CILKSTL_PARALLEL_CUTOFF :: nat where
  "CILKSTL_PARALLEL_CUTOFF = 4000"

definition CILKSTL_PARALLEL_MERGE_CUTOFF :: nat where
  "CILKSTL_PARALLEL_MERGE_CUTOFF = 1000"

text \<open>
  \<open>std::stable_sort\<close>, the canonical single-threaded stable sort: insertion of the elements
  from the right, each one in front of the first element that is not smaller.
\<close>

fun insert_stable :: "('a \<Rightarrow> 'a \<Rightarrow> bool) \<Rightarrow> 'a \<Rightarrow> 'a list \<Rightarrow> 'a list" where
  "insert_stable cmp x [] = [x]"
| "insert_stable cmp x (y # ys) =
     (if cmp y x then y # insert_stable cmp x ys else x # y # ys)"

definition std_stable_sort :: "'a list \<Rightarrow> ('a \<Rightarrow> 'a \<Rightarrow> bool) \<Rightarrow> 'a list" where
  "std_stable_sort xs cmp = foldr (insert_stable cmp) xs []"

text \<open>
  \<open>std::lower_bound\<close> and \<open>std::upper_bound\<close> on a range that is partitioned with respect to
  the value: the offset of the first element that is not less than the value, and of the
  first element that is greater.
\<close>

definition lower_bound :: "'a list \<Rightarrow> 'a \<Rightarrow> ('a \<Rightarrow> 'a \<Rightarrow> bool) \<Rightarrow> nat" where
  "lower_bound xs v cmp = length (takeWhile (\<lambda>x. cmp x v) xs)"

definition upper_bound :: "'a list \<Rightarrow> 'a \<Rightarrow> ('a \<Rightarrow> 'a \<Rightarrow> bool) \<Rightarrow> nat" where
  "upper_bound xs v cmp = length (takeWhile (\<lambda>x. \<not> cmp v x) xs)"

text \<open>
  The merge functions are given by the sequence of elements that they assign, one after the
  other, to the cells of the range that starts at \<open>cs\<close>; what an assignment does to its
  cell is the subject of the next subsection.
\<close>

fun serial_merge :: "'a list \<Rightarrow> 'a list \<Rightarrow> ('a \<Rightarrow> 'a \<Rightarrow> bool) \<Rightarrow> 'a list" where
  "serial_merge (a # as) (b # bs) cmp =
     (if cmp b a then b # serial_merge (a # as) bs cmp
      else a # serial_merge as (b # bs) cmp)"
| "serial_merge as [] cmp = as"
| "serial_merge [] bs cmp = bs"

function parallel_merge :: "'a list \<Rightarrow> 'a list \<Rightarrow> ('a \<Rightarrow> 'a \<Rightarrow> bool) \<Rightarrow> 'a list" where
  "parallel_merge as bs cmp =
     (if length as + length bs < CILKSTL_PARALLEL_MERGE_CUTOFF then serial_merge as bs cmp
      else if length as > length bs then
        (let a_delta = length as - length as div 2;
             b_delta = lower_bound bs (as ! a_delta) cmp
         in parallel_merge (take a_delta as) (take b_delta bs) cmp @
            parallel_merge (drop a_delta as) (drop b_delta bs) cmp)
      else
        (let b_delta = length bs div 2;
             a_delta = upper_bound as (bs ! b_delta) cmp
         in parallel_merge (take a_delta as) (take b_delta bs) cmp @
            parallel_merge (drop a_delta as) (drop b_delta bs) cmp))"
  by pat_completeness auto
termination
  by (relation "measure (\<lambda>(as, bs, cmp). length as + length bs)")
     (auto simp: CILKSTL_PARALLEL_MERGE_CUTOFF_def)

declare parallel_merge.simps [simp del]

subsection \<open>Storage\<close>

text \<open>
  The range \<open>[first, last)\<close> that the caller passes holds an object in every cell, and is a
  list of elements.  The buffer is what \<open>malloc\<close> returned: storage in which no object has
  been constructed.  A cell of the buffer is \<open>None\<close> while it is raw storage and \<open>Some v\<close>
  once it holds an object.

  The source writes to the buffer by move assignment, \<open>*cs++ = std::move(*as++)\<close> in
  \<open>serial_merge\<close> and \<open>*(out + k) = std::move(*(first + k))\<close> in \<open>move_contents\<close>, never by
  construction.  Whether that is harmless on raw storage depends on the element type, so
  the model takes a flag \<open>overwrites\<close>: true when the move assignment of the element type
  only overwrites its destination (\<open>double\<close>, or a class whose assignment copies its fields),
  false when it reads the object it replaces (\<open>std::string\<close> and other types that own
  memory).  An assignment of the second kind to raw storage has no defined result.
\<close>

datatype fault = Raw_Assign | Raw_Read | Past_End

text \<open>
  \<open>assign_all\<close>: the given elements are assigned, in order, to the cells from the start of a
  range.  \<open>read_all\<close>: every cell of a range is read.
\<close>

fun assign_all :: "bool \<Rightarrow> 'a option list \<Rightarrow> 'a list \<Rightarrow> fault + 'a option list" where
  "assign_all overwrites cells [] = Inr cells"
| "assign_all overwrites [] (v # vs) = Inl Past_End"
| "assign_all overwrites (c # cells) (v # vs) =
     (if c = None \<and> \<not> overwrites then Inl Raw_Assign
      else (case assign_all overwrites cells vs of
              Inl f \<Rightarrow> Inl f
            | Inr cells' \<Rightarrow> Inr (Some v # cells')))"

fun read_all :: "'a option list \<Rightarrow> fault + 'a list" where
  "read_all [] = Inr []"
| "read_all (None # cells) = Inl Raw_Read"
| "read_all (Some v # cells) =
     (case read_all cells of Inl f \<Rightarrow> Inl f | Inr vs \<Rightarrow> Inr (v # vs))"

text \<open>
  \<open>move_contents(first, last, out)\<close> from a range of objects into cells of the buffer.
\<close>

definition move_contents :: "bool \<Rightarrow> 'a list \<Rightarrow> 'a option list \<Rightarrow> fault + 'a option list" where
  "move_contents overwrites src out = assign_all overwrites out src"

text \<open>
  \<open>parallel_merge(as, ae, bs, be, cs, comp)\<close> from two ranges of objects into cells of the
  buffer, and from two ranges of buffer cells onto the objects of \<open>[first, last)\<close>: the merge
  reads every element of its inputs and assigns every element of its output once.
\<close>

definition merge_to_buffer ::
  "bool \<Rightarrow> 'a list \<Rightarrow> 'a list \<Rightarrow> 'a option list \<Rightarrow> ('a \<Rightarrow> 'a \<Rightarrow> bool) \<Rightarrow>
   fault + 'a option list" where
  "merge_to_buffer overwrites as bs cs cmp = assign_all overwrites cs (parallel_merge as bs cmp)"

definition merge_from_buffer ::
  "'a option list \<Rightarrow> 'a option list \<Rightarrow> ('a \<Rightarrow> 'a \<Rightarrow> bool) \<Rightarrow> fault + 'a list" where
  "merge_from_buffer as bs cmp =
     (case read_all as of
        Inl f \<Rightarrow> Inl f
      | Inr a \<Rightarrow> (case read_all bs of
                    Inl f \<Rightarrow> Inl f
                  | Inr b \<Rightarrow> Inr (parallel_merge a b cmp)))"

subsection \<open>merge\_sort and stable\_sort\<close>

text \<open>
  \<open>merge_sort\<close> takes the elements of \<open>[first, last)\<close> and the cells of the buffer from \<open>out\<close>
  on, of which it uses \<open>[out, out_last)\<close>.  It returns the location flag, the elements of
  \<open>[first, last)\<close> and the cells of \<open>[out, out_last)\<close> afterwards, or the fault at which the
  call has no defined result.
\<close>

function merge_sort ::
  "bool \<Rightarrow> 'a list \<Rightarrow> 'a option list \<Rightarrow> ('a \<Rightarrow> 'a \<Rightarrow> bool) \<Rightarrow>
   fault + (bool \<times> 'a list \<times> 'a option list)" where
  "merge_sort overwrites xs out cmp =
     (if length xs div 2 \<le> CILKSTL_PARALLEL_CUTOFF then
        (let lo = std_stable_sort (take (length xs div 2) xs) cmp;
             hi = std_stable_sort (drop (length xs div 2) xs) cmp
         in (case merge_to_buffer overwrites lo hi (take (length xs) out) cmp of
               Inl f \<Rightarrow> Inl f
             | Inr out' \<Rightarrow> Inr (True, lo @ hi, out')))
      else
        (case merge_sort overwrites (take (length xs div 2) xs) (take (length xs div 2) out) cmp of
           Inl f \<Rightarrow> Inl f
         | Inr (r1, lo, out_lo) \<Rightarrow>
        (case merge_sort overwrites (drop (length xs div 2) xs)
                (drop (length xs div 2) (take (length xs) out)) cmp of
           Inl f \<Rightarrow> Inl f
         | Inr (r2, hi, out_hi) \<Rightarrow>
             if r1 \<and> r2 then
               (case merge_from_buffer out_lo out_hi cmp of
                  Inl f \<Rightarrow> Inl f
                | Inr xs' \<Rightarrow> Inr (False, xs', out_lo @ out_hi))
             else if \<not> r1 \<and> \<not> r2 then
               (case merge_to_buffer overwrites lo hi (out_lo @ out_hi) cmp of
                  Inl f \<Rightarrow> Inl f
                | Inr out' \<Rightarrow> Inr (True, lo @ hi, out'))
             else if r1 then
               (case move_contents overwrites hi out_hi of
                  Inl f \<Rightarrow> Inl f
                | Inr out_hi' \<Rightarrow>
                    (case merge_from_buffer out_lo out_hi' cmp of
                       Inl f \<Rightarrow> Inl f
                     | Inr xs' \<Rightarrow> Inr (False, xs', out_lo @ out_hi')))
             else
               (case move_contents overwrites lo out_lo of
                  Inl f \<Rightarrow> Inl f
                | Inr out_lo' \<Rightarrow>
                    (case merge_from_buffer out_lo' out_hi cmp of
                       Inl f \<Rightarrow> Inl f
                     | Inr xs' \<Rightarrow> Inr (False, xs', out_lo' @ out_hi))))))"
  by pat_completeness auto
termination
  by (relation "measure (\<lambda>(overwrites, xs, out, cmp). length xs)")
     (auto simp: CILKSTL_PARALLEL_CUTOFF_def)

declare merge_sort.simps [simp del]

text \<open>
  \<open>stable_sort\<close> once \<open>StableSortBuffer\<close> has obtained storage for \<open>range_width\<close> elements:
  the buffer starts as raw storage.  The result is the final content of \<open>[first, last)\<close>;
  when the flag of \<open>merge_sort\<close> is true, \<open>move_contents\<close> reads every cell of the buffer
  and assigns it to the object at the same offset of the range.  The destructor of the
  buffer (\<open>delete\<close> on the storage) runs after that and is not part of the model.
\<close>

definition stable_sort ::
  "bool \<Rightarrow> 'a list \<Rightarrow> ('a \<Rightarrow> 'a \<Rightarrow> bool) \<Rightarrow> fault + 'a list" where
  "stable_sort overwrites xs cmp =
     (if length xs < CILKSTL_PARALLEL_CUTOFF then Inr (std_stable_sort xs cmp)
      else (case merge_sort overwrites xs (replicate (length xs) None) cmp of
              Inl f \<Rightarrow> Inl f
            | Inr (result, xs', buffer') \<Rightarrow>
                if result then read_all buffer' else Inr xs'))"

subsection \<open>Comparators\<close>

text \<open>
  A strict weak order: irreflexive, transitive, and with a transitive incomparability (stated
  as negative transitivity).  Two elements are equivalent when neither is less than the
  other.  A list is sorted when no element is less than one before it.
\<close>

definition strict_weak_order :: "('a \<Rightarrow> 'a \<Rightarrow> bool) \<Rightarrow> bool" where
  "strict_weak_order cmp \<longleftrightarrow>
     (\<forall>x. \<not> cmp x x) \<and>
     (\<forall>x y z. cmp x y \<longrightarrow> cmp y z \<longrightarrow> cmp x z) \<and>
     (\<forall>x y z. cmp x z \<longrightarrow> cmp x y \<or> cmp y z)"

definition equiv_by :: "('a \<Rightarrow> 'a \<Rightarrow> bool) \<Rightarrow> 'a \<Rightarrow> 'a \<Rightarrow> bool" where
  "equiv_by cmp x y \<longleftrightarrow> \<not> cmp x y \<and> \<not> cmp y x"

definition sorted_by :: "('a \<Rightarrow> 'a \<Rightarrow> bool) \<Rightarrow> 'a list \<Rightarrow> bool" where
  "sorted_by cmp xs \<longleftrightarrow> sorted_wrt (\<lambda>x y. \<not> cmp y x) xs"

subsection \<open>The buffer allocation\<close>

text \<open>
  \<open>StableSortBuffer\<close> stores the result of \<open>malloc\<close> without testing it, and \<open>stable_sort\<close>
  passes \<open>buffer.data()\<close> on to \<open>merge_sort\<close>.  \<open>malloc\<close> either yields storage (\<open>Some ()\<close>)
  or the null pointer (\<open>None\<close>).  With a null \<open>out\<close>, \<open>merge_sort\<close> runs as
  before until \<open>parallel_merge\<close> stores its first element through \<open>out\<close>; \<open>merge_sort_null\<close>
  gives the contents of \<open>[first, last)\<close> at that store: the spawned call on the first half
  gets there first, and the leaf has sorted its two halves in place by then.
\<close>

function merge_sort_null :: "'a list \<Rightarrow> ('a \<Rightarrow> 'a \<Rightarrow> bool) \<Rightarrow> 'a list" where
  "merge_sort_null xs cmp =
     (if length xs div 2 \<le> CILKSTL_PARALLEL_CUTOFF then
        std_stable_sort (take (length xs div 2) xs) cmp @
        std_stable_sort (drop (length xs div 2) xs) cmp
      else merge_sort_null (take (length xs div 2) xs) cmp @ drop (length xs div 2) xs)"
  by pat_completeness auto
termination
  by (relation "measure (\<lambda>(xs, cmp). length xs)")
     (auto simp: CILKSTL_PARALLEL_CUTOFF_def)

declare merge_sort_null.simps [simp del]

text \<open>
  The ways a call of \<open>stable_sort\<close> can end: it returns with \<open>[first, last)\<close> as given, it
  stores through the null pointer with \<open>[first, last)\<close> as given, or it runs into a fault on
  the storage of the buffer.  The source has no path that reports a failed allocation.
\<close>

datatype 'a outcome = Returned "'a list" | Null_Store "'a list" | Undefined fault

definition stable_sort_malloc ::
  "bool \<Rightarrow> 'a list \<Rightarrow> unit option \<Rightarrow> ('a \<Rightarrow> 'a \<Rightarrow> bool) \<Rightarrow> 'a outcome" where
  "stable_sort_malloc overwrites xs malloc_result cmp =
     (if length xs < CILKSTL_PARALLEL_CUTOFF then Returned (std_stable_sort xs cmp)
      else (case malloc_result of
              Some u \<Rightarrow> (case stable_sort overwrites xs cmp of
                          Inl f \<Rightarrow> Undefined f
                        | Inr ys \<Rightarrow> Returned ys)
            | None \<Rightarrow> Null_Store (merge_sort_null xs cmp)))"

section \<open>cilk\_partition.h\<close>

definition PARTITION_GS :: nat where
  "PARTITION_GS = 4096"

definition PART_SIZE :: nat where
  "PART_SIZE = 64"

text \<open>
  The first statements of \<open>strided_partition\<close>: \<open>part_size\<close>, the start pointer \<open>s\<close> and the
  end pointer \<open>e\<close>, as offsets from \<open>first\<close>.
\<close>

definition strided_init :: "nat \<Rightarrow> nat \<Rightarrow> nat \<Rightarrow> nat \<times> nat \<times> nat" where
  "strided_init range_width num_parts offset =
     (let part_size = range_width div num_parts;
          s = offset;
          e = (if part_size * num_parts + offset < range_width
               then part_size * num_parts + offset
               else part_size * (num_parts - 1) + offset)
      in (part_size, s, e))"

text \<open>
  The largest position below \<open>range_width\<close> of the form \<open>k * PART_SIZE + offset\<close> with
  \<open>k < bound\<close>; this follows the wording of the specification, not the code.
\<close>

definition largest_stride_pos :: "nat \<Rightarrow> nat \<Rightarrow> nat \<Rightarrow> nat" where
  "largest_stride_pos bound range_width offset =
     Max ((\<lambda>k. k * PART_SIZE + offset) ` {k. k < bound \<and> k * PART_SIZE + offset < range_width})"

definition swap :: "nat \<Rightarrow> nat \<Rightarrow> 'a list \<Rightarrow> 'a list" where
  "swap i j xs = xs[i := xs ! j, j := xs ! i]"

text \<open>
  The loops of \<open>strided_partition\<close>.  A result \<open>None\<close> stands for a call without a defined
  result: a pointer that leaves the range and is dereferenced, a division by zero, or a
  loop that does not end (a stride of zero).
\<close>

partial_function (option) advance_s ::
  "('a \<Rightarrow> bool) \<Rightarrow> 'a list \<Rightarrow> nat \<Rightarrow> nat \<Rightarrow> nat \<Rightarrow> nat option" where
  "advance_s p xs part_size s e =
     (if s < length xs then
        (if p (xs ! s) \<and> s < e then advance_s p xs part_size (s + part_size) e
         else Some s)
      else None)"

partial_function (option) retreat_e ::
  "('a \<Rightarrow> bool) \<Rightarrow> 'a list \<Rightarrow> nat \<Rightarrow> nat \<Rightarrow> nat \<Rightarrow> nat option" where
  "retreat_e p xs part_size s e =
     (if e < length xs then
        (if \<not> p (xs ! e) \<and> s < e then
           (if part_size \<le> e then retreat_e p xs part_size s (e - part_size) else None)
         else Some e)
      else None)"

partial_function (option) strided_loop ::
  "('a \<Rightarrow> bool) \<Rightarrow> nat \<Rightarrow> 'a list \<Rightarrow> nat \<Rightarrow> nat \<Rightarrow> ('a list \<times> nat) option" where
  "strided_loop p part_size xs s e =
     (if s < e then
        (if e < length xs then
           Option.bind (advance_s p (swap s e xs) part_size s e) (\<lambda>s'.
           Option.bind (retreat_e p (swap s e xs) part_size s' e) (\<lambda>e'.
           strided_loop p part_size (swap s e xs) s' e'))
         else None)
      else Some (xs, s))"

text \<open>
  \<open>strided_partition\<close> returns the range as it leaves it and the cut index.
\<close>

definition strided_partition ::
  "'a list \<Rightarrow> ('a \<Rightarrow> bool) \<Rightarrow> nat \<Rightarrow> nat \<Rightarrow> ('a list \<times> nat) option" where
  "strided_partition xs p num_parts offset =
     (if num_parts = 0 then None
      else (case strided_init (length xs) num_parts offset of
              (part_size, s0, e0) \<Rightarrow>
                Option.bind (strided_loop p part_size xs s0 e0) (\<lambda>(ys, s).
                  if s < length ys then Some (ys, if p (ys ! s) then s + 1 else s)
                  else None)))"

text \<open>
  The loop of \<open>partition\<close> that spawns the strides \<open>0, ..., n - 1\<close>: the range after all of
  them and the vector \<open>results\<close>.
\<close>

fun spawn_strides ::
  "'a list \<Rightarrow> ('a \<Rightarrow> bool) \<Rightarrow> nat \<Rightarrow> nat \<Rightarrow> ('a list \<times> nat list) option" where
  "spawn_strides xs p num_parts 0 = Some (xs, [])"
| "spawn_strides xs p num_parts (Suc i) =
     Option.bind (spawn_strides xs p num_parts i) (\<lambda>(ys, results).
     Option.bind (strided_partition ys p num_parts i) (\<lambda>(zs, r).
     Some (zs, results @ [r])))"

text \<open>
  What the standard requires of \<open>std::partition\<close>: the result is a permutation of the range,
  the elements that satisfy the predicate come first, and the iterator returned points
  behind them.
\<close>

definition std_partition_spec ::
  "('a list \<Rightarrow> ('a \<Rightarrow> bool) \<Rightarrow> 'a list \<times> nat) \<Rightarrow> bool" where
  "std_partition_spec part \<longleftrightarrow>
     (\<forall>xs p. case part xs p of
        (ys, m) \<Rightarrow> mset ys = mset xs \<and> m \<le> length ys \<and>
                  (\<forall>i < length ys. p (ys ! i) \<longleftrightarrow> i < m))"

text \<open>One implementation of \<open>std::partition\<close>, the one that keeps the order in both groups.\<close>

definition std_partition :: "'a list \<Rightarrow> ('a \<Rightarrow> bool) \<Rightarrow> 'a list \<times> nat" where
  "std_partition xs p = (filter p xs @ filter (\<lambda>x. \<not> p x) xs, length (filter p xs))"

definition partition_cilk ::
  "('a list \<Rightarrow> ('a \<Rightarrow> bool) \<Rightarrow> 'a list \<times> nat) \<Rightarrow> 'a list \<Rightarrow> ('a \<Rightarrow> bool) \<Rightarrow>
   ('a list \<times> nat) option" where
  "partition_cilk part xs p =
     (if length xs < PARTITION_GS then Some (part xs p)
      else
        Option.bind (spawn_strides xs p (length xs div PART_SIZE) PART_SIZE) (\<lambda>(ys, results).
          (let left = Min (set results);
               right = Max (set results)
           in (case part (take (right - left) (drop left ys)) p of
                 (middle, m) \<Rightarrow> Some (take left ys @ middle @ drop right ys, left + m)))))"

section \<open>transform\<close>

lemma transform_loop_Suc:
  "transform_loop first d_first f (Suc n) mem =
     (transform_loop first d_first f n mem)
       (d_first + n := f (transform_loop first d_first f n mem (first + n)))"
  by (simp add: transform_loop_def)

text \<open>
  The loop does what \<open>std::transform\<close> does when the output range does not meet the input
  range: every output cell holds the image of its input cell, and nothing else changes.
\<close>

lemma transform_loop_writes:
  assumes "\<forall>i<n. \<forall>j<n. d_first + i \<noteq> first + j"
  shows "(\<forall>i<n. transform_loop first d_first f n mem (d_first + i) = f (mem (first + i))) \<and>
         (\<forall>a. (\<forall>i<n. a \<noteq> d_first + i) \<longrightarrow> transform_loop first d_first f n mem a = mem a)"
  using assms
proof (induction n)
  case 0
  then show ?case by (simp add: transform_loop_def)
next
  case (Suc n)
  have disj: "\<forall>i<n. \<forall>j<n. d_first + i \<noteq> first + j" using Suc.prems by auto
  note IH = Suc.IH[OF disj]
  have inp: "transform_loop first d_first f n mem (first + n) = mem (first + n)"
    using IH Suc.prems by (metis lessI less_SucI)
  show ?case
  proof (intro conjI allI impI)
    fix i assume "i < Suc n"
    then show "transform_loop first d_first f (Suc n) mem (d_first + i) = f (mem (first + i))"
      using IH inp by (cases "i = n") (auto simp: transform_loop_Suc)
  next
    fix a assume "\<forall>i<Suc n. a \<noteq> d_first + i"
    then show "transform_loop first d_first f (Suc n) mem a = mem a"
      using IH by (auto simp: transform_loop_Suc)
  qed
qed

text \<open>
  Claim C7 at two concrete calls.  The claim has \<open>transform\<close> return \<open>out + N\<close>.  On the empty
  range \<open>[3, 3)\<close> with output iterator 8 the code returns the input iterator 3, not 8.  On the
  range \<open>[0, 2)\<close> with output iterator 8 in a memory of zeros the code writes the two images
  to the cells 8 and 9, leaves the cells 0 and 1 as they are, and returns the element it reads at
  address 10 (which is 0), not the iterator 10.
\<close>

theorem transform_return_value:
  "fst (transform id 3 3 8 Suc (\<lambda>a. 0)) = 3 \<and>
   fst (transform id 0 2 8 Suc (\<lambda>a. 0)) = 0 \<and>
   snd (transform id 0 2 8 Suc (\<lambda>a. 0)) 8 = 1 \<and>
   snd (transform id 0 2 8 Suc (\<lambda>a. 0)) 9 = 1 \<and>
   snd (transform id 0 2 8 Suc (\<lambda>a. 0)) 0 = 0 \<and>
   snd (transform id 0 2 8 Suc (\<lambda>a. 0)) 1 = 0"
  by (simp add: transform_def transform_loop_def Let_def upt_rec)

section \<open>find\<close>

lemma std_find_le: "std_find xs v \<le> length xs"
  by (induction xs) auto

lemma std_find_hit: "std_find xs v < length xs \<Longrightarrow> xs ! std_find xs v = v"
  by (induction xs) (auto split: if_splits)

lemma std_find_first: "i < std_find xs v \<Longrightarrow> xs ! i \<noteq> v"
proof (induction xs arbitrary: i)
  case Nil
  then show ?case by simp
next
  case (Cons x xs)
  then show ?case by (cases i) (auto split: if_splits)
qed

lemma std_find_eqI:
  assumes "k \<le> length xs" and "\<forall>j<k. xs ! j \<noteq> v" and "k < length xs \<longrightarrow> xs ! k = v"
  shows "std_find xs v = k"
proof -
  have "\<not> std_find xs v < k"
    using assms(1,2) std_find_hit[of xs v] by (metis less_le_trans)
  moreover have "\<not> k < std_find xs v"
    using assms(3) std_find_first[of k xs v] std_find_le[of xs v] by (metis less_le_trans)
  ultimately show ?thesis by simp
qed

lemma std_find_match_le: "r < length xs \<Longrightarrow> xs ! r = v \<Longrightarrow> std_find xs v \<le> r"
  using std_find_first[of r xs v] by (metis not_le)

lemma std_find_append:
  "std_find (xs @ ys) v =
     (if std_find xs v < length xs then std_find xs v else length xs + std_find ys v)"
  by (induction xs) auto

lemma find_cilk_std_find: "find_cilk xs v = std_find xs v"
proof (induction xs v rule: find_cilk.induct)
  case (1 xs v)
  show ?case
  proof (cases "length xs < BINARY_GRAIN_SIZE")
    case True
    then show ?thesis by (simp add: find_cilk.simps)
  next
    case False
    define m where "m = length xs div 2"
    have l: "find_cilk (take m xs) v = std_find (take m xs) v"
      using "1.IH"(1)[OF False] by (simp add: m_def)
    have r: "find_cilk (drop m xs) v = std_find (drop m xs) v"
      using "1.IH"(2)[OF False refl refl] by (simp add: m_def)
    have len: "length (take m xs) = m" by (simp add: m_def)
    have "std_find xs v = std_find (take m xs @ drop m xs) v" by simp
    also have "\<dots> = (if std_find (take m xs) v < m then std_find (take m xs) v
                      else m + std_find (drop m xs) v)"
      unfolding std_find_append len by (rule refl)
    finally have s: "std_find xs v = (if std_find (take m xs) v < m then std_find (take m xs) v
                      else m + std_find (drop m xs) v)" .
    have le: "std_find (take m xs) v \<le> m" using std_find_le[of "take m xs" v] len by simp
    have "find_cilk xs v = (if std_find (take m xs) v \<noteq> m then std_find (take m xs) v
                      else m + std_find (drop m xs) v)"
      using False l r by (subst find_cilk.simps) (simp add: Let_def m_def)
    with s le show ?thesis by auto
  qed
qed

section \<open>find2\<close>

lemma slice_length: "e \<le> length xs \<Longrightarrow> length (take (e - s) (drop s xs)) = e - s"
  by simp

lemma slice_nth: "j < e - s \<Longrightarrow> e \<le> length xs \<Longrightarrow> take (e - s) (drop s xs) ! j = xs ! (s + j)"
  by simp

lemma leaf_hit:
  assumes "s \<le> e" "e \<le> length xs" "s + std_find (take (e - s) (drop s xs)) v < e"
  shows "s + std_find (take (e - s) (drop s xs)) v < length xs \<and>
         xs ! (s + std_find (take (e - s) (drop s xs)) v) = v"
proof -
  let ?sl = "take (e - s) (drop s xs)"
  have k: "std_find ?sl v < e - s" using assms by simp
  then have "std_find ?sl v < length ?sl" using slice_length[OF assms(2)] by simp
  then have "?sl ! std_find ?sl v = v" by (rule std_find_hit)
  then have "xs ! (s + std_find ?sl v) = v" using slice_nth[OF k assms(2)] by simp
  then show ?thesis using assms by simp
qed

lemma leaf_cover:
  assumes "s \<le> std_find xs v" "std_find xs v < e" "e \<le> length xs"
  shows "s + std_find (take (e - s) (drop s xs)) v = std_find xs v"
proof -
  let ?sl = "take (e - s) (drop s xs)"
  let ?f = "std_find xs v"
  have fl: "?f < length xs" using assms by simp
  have "std_find ?sl v = ?f - s"
  proof (rule std_find_eqI)
    show "?f - s \<le> length ?sl" using assms by simp
    show "\<forall>j<?f - s. ?sl ! j \<noteq> v"
    proof (intro allI impI)
      fix j assume j: "j < ?f - s"
      then have "j < e - s" using assms by simp
      then have "?sl ! j = xs ! (s + j)" using assms(3) by (rule slice_nth)
      moreover have "xs ! (s + j) \<noteq> v" using j by (intro std_find_first) simp
      ultimately show "?sl ! j \<noteq> v" by simp
    qed
    show "?f - s < length ?sl \<longrightarrow> ?sl ! (?f - s) = v"
    proof
      have "?f - s < e - s" using assms by simp
      then have "?sl ! (?f - s) = xs ! (s + (?f - s))" using assms(3) by (rule slice_nth)
      then show "?sl ! (?f - s) = v" using assms(1) std_find_hit[OF fl] by simp
    qed
  qed
  then show ?thesis using assms by simp
qed

lemma match_or_end_ge: "match_or_end xs v i \<Longrightarrow> std_find xs v \<le> i"
  unfolding match_or_end_def using std_find_le[of xs v] std_find_match_le[of i xs v] by auto

lemma task_step_le:
  assumes "task_ok xs v t" and "task_step xs v sp idx t = (idx', new)"
  shows "idx' \<le> idx"
  using assms by (cases t) (auto simp: Let_def split: if_splits)

lemma task_step_match:
  assumes "match_or_end xs v idx" and "task_ok xs v t"
    and "task_step xs v sp idx t = (idx', new)"
  shows "match_or_end xs v idx'"
  using assms by (cases t) (auto simp: Let_def match_or_end_def split: if_splits)

lemma task_step_ok:
  assumes "task_ok xs v t" and "task_step xs v sp idx t = (idx', new)"
  shows "list_all (task_ok xs v) new"
proof (cases t)
  case (Call s e)
  show ?thesis
  proof (cases "s < idx \<and> e - s < FIND2_GRAIN_SIZE \<and>
                s + std_find (take (e - s) (drop s xs)) v < e")
    case True
    with assms Call have "new = [Loop (s + std_find (take (e - s) (drop s xs)) v)]"
      by (auto simp: Let_def)
    moreover have "s \<le> e" "e \<le> length xs" using assms(1) Call by auto
    ultimately show ?thesis using leaf_hit[of s e xs v] True by simp
  next
    case False
    with assms Call show ?thesis by (auto simp: Let_def split: if_splits)
  qed
next
  case (Loop r)
  with assms show ?thesis by (auto split: if_splits)
next
  case (Cas r z)
  with assms show ?thesis by (auto split: if_splits)
qed

lemma task_step_cover:
  assumes "match_or_end xs v idx" and "task_ok xs v t"
    and "task_step xs v sp idx t = (idx', new)" and "covers t (std_find xs v)"
  shows "idx' = std_find xs v \<or> list_ex (\<lambda>t. covers t (std_find xs v)) new"
proof -
  have ge: "std_find xs v \<le> idx" using assms(1) by (rule match_or_end_ge)
  show ?thesis
  proof (cases t)
    case (Call s e)
    then have c: "s \<le> std_find xs v" "std_find xs v < e" "e \<le> length xs"
      using assms(2,4) by auto
    note lc = leaf_cover[OF c]
    show ?thesis using assms(3) ge c lc unfolding Call
      by (auto simp: Let_def split: if_splits)
  next
    case (Loop r)
    with assms ge show ?thesis by (auto split: if_splits)
  next
    case (Cas r z)
    with assms ge show ?thesis by (auto split: if_splits)
  qed
qed

lemma task_step_found:
  assumes "idx = std_find xs v" and "task_ok xs v t"
    and "task_step xs v sp idx t = (idx', new)"
  shows "idx' = std_find xs v"
proof (cases t)
  case (Call s e)
  with assms show ?thesis by (auto simp: Let_def split: if_splits)
next
  case (Loop r)
  with assms show ?thesis by (auto split: if_splits)
next
  case (Cas r z)
  then have "std_find xs v \<le> r" using assms(2) by (auto intro: std_find_match_le)
  with assms Cas show ?thesis by (auto split: if_splits)
qed

lemma list_pool_split:
  assumes "i < length ts"
  shows "list_all P (take i ts @ new @ drop (Suc i) ts) \<longleftrightarrow>
           list_all P (take i ts) \<and> list_all P new \<and> list_all P (drop (Suc i) ts)"
    and "list_all P ts \<longleftrightarrow> list_all P (take i ts) \<and> P (ts ! i) \<and> list_all P (drop (Suc i) ts)"
    and "list_ex P ts \<longleftrightarrow> list_ex P (take i ts) \<or> P (ts ! i) \<or> list_ex P (drop (Suc i) ts)"
    and "list_ex P (take i ts @ new @ drop (Suc i) ts) \<longleftrightarrow>
           list_ex P (take i ts) \<or> list_ex P new \<or> list_ex P (drop (Suc i) ts)"
proof -
  have ts: "ts = take i ts @ ts ! i # drop (Suc i) ts" using assms by (rule id_take_nth_drop)
  show "list_all P (take i ts @ new @ drop (Suc i) ts) \<longleftrightarrow>
           list_all P (take i ts) \<and> list_all P new \<and> list_all P (drop (Suc i) ts)"
    by simp
  show "list_all P ts \<longleftrightarrow> list_all P (take i ts) \<and> P (ts ! i) \<and> list_all P (drop (Suc i) ts)"
    by (subst ts) simp
  show "list_ex P ts \<longleftrightarrow> list_ex P (take i ts) \<or> P (ts ! i) \<or> list_ex P (drop (Suc i) ts)"
    by (subst ts) simp
  show "list_ex P (take i ts @ new @ drop (Suc i) ts) \<longleftrightarrow>
           list_ex P (take i ts) \<or> list_ex P new \<or> list_ex P (drop (Suc i) ts)"
    by simp
qed

lemma sched_step_inv:
  assumes "find2_inv xs v c"
  shows "find2_inv xs v (sched_step xs v choice c)"
proof -
  obtain idx ts where c: "c = (idx, ts)" by (cases c)
  obtain i sp where ch: "choice = (i, sp)" by (cases choice)
  show ?thesis
  proof (cases "i < length ts")
    case False
    then show ?thesis using assms by (simp add: sched_step_def c ch)
  next
    case True
    obtain idx' new where st: "task_step xs v sp idx (ts ! i) = (idx', new)"
      by (cases "task_step xs v sp idx (ts ! i)")
    have res: "sched_step xs v choice c = (idx', take i ts @ new @ drop (Suc i) ts)"
      using True st by (simp add: sched_step_def c ch)
    have m: "match_or_end xs v idx" and all: "list_all (task_ok xs v) ts"
      and cov: "idx = std_find xs v \<or> list_ex (\<lambda>t. covers t (std_find xs v)) ts"
      using assms by (auto simp: find2_inv_def c)
    have ok: "task_ok xs v (ts ! i)" and rest: "list_all (task_ok xs v) (take i ts)"
      "list_all (task_ok xs v) (drop (Suc i) ts)"
      using all list_pool_split(2)[OF True, of "task_ok xs v"] by auto
    have m': "match_or_end xs v idx'" using m ok st by (rule task_step_match)
    have all': "list_all (task_ok xs v) (take i ts @ new @ drop (Suc i) ts)"
      using rest task_step_ok[OF ok st] by simp
    have cov': "idx' = std_find xs v \<or>
          list_ex (\<lambda>t. covers t (std_find xs v)) (take i ts @ new @ drop (Suc i) ts)"
    proof (cases "idx = std_find xs v")
      case True
      then show ?thesis using task_step_found[OF _ ok st] by simp
    next
      case False
      with cov have "list_ex (\<lambda>t. covers t (std_find xs v)) ts" by simp
      then consider "covers (ts ! i) (std_find xs v)"
        | "list_ex (\<lambda>t. covers t (std_find xs v)) (take i ts)"
        | "list_ex (\<lambda>t. covers t (std_find xs v)) (drop (Suc i) ts)"
        using list_pool_split(3)[OF \<open>i < length ts\<close>, of "\<lambda>t. covers t (std_find xs v)"] by auto
      then show ?thesis
      proof cases
        case 1
        then show ?thesis using task_step_cover[OF m ok st] by auto
      next
        case 2
        then show ?thesis by simp
      next
        case 3
        then show ?thesis by simp
      qed
    qed
    show ?thesis unfolding res find2_inv_def using m' all' cov' by simp
  qed
qed

lemma run_Nil: "run xs v [] c = c"
  by (simp add: run_def)

lemma run_Cons: "run xs v (choice # sched) c = run xs v sched (sched_step xs v choice c)"
  by (simp add: run_def)

lemma run_append: "run xs v (sched @ sched') c = run xs v sched' (run xs v sched c)"
  by (simp add: run_def)

lemma run_inv: "find2_inv xs v c \<Longrightarrow> find2_inv xs v (run xs v sched c)"
proof (induction sched arbitrary: c)
  case Nil
  then show ?case by (simp add: run_Nil)
next
  case (Cons choice sched)
  show ?case unfolding run_Cons by (rule Cons.IH) (rule sched_step_inv[OF Cons.prems])
qed

lemma find2_init_inv: "find2_inv xs v (find2_init xs)"
  using std_find_le[of xs v] by (auto simp: find2_inv_def find2_init_def match_or_end_def)

lemma reachable_inv: "find2_inv xs v (run xs v sched (find2_init xs))"
  by (rule run_inv) (rule find2_init_inv)

lemma find2_std_find:
  assumes "find2 xs v sched = Some r"
  shows "r = std_find xs v"
proof (cases "length xs \<le> 2 * FIND2_GRAIN_SIZE")
  case True
  with assms show ?thesis by (simp add: find2_def)
next
  case False
  obtain idx ts where c: "run xs v sched (find2_init xs) = (idx, ts)"
    by (cases "run xs v sched (find2_init xs)")
  with assms False have "ts = []" "r = idx" by (auto simp: find2_def split: list.splits)
  moreover have "find2_inv xs v (idx, ts)" using reachable_inv[of xs v sched] c by simp
  ultimately show ?thesis by (simp add: find2_inv_def)
qed

subsection \<open>Every execution can be completed\<close>

lemma head_step:
  "sched_step xs v (0, sp) (idx, t # rest) =
     (fst (task_step xs v sp idx t), snd (task_step xs v sp idx t) @ rest)"
  by (simp add: sched_step_def split: prod.splits)

lemma drain_loop: "\<exists>sched idx'. run xs v sched (idx, Loop r # rest) = (idx', rest)"
proof (cases "r < idx")
  case True
  then have "run xs v [(0, False), (0, False), (0, False)] (idx, Loop r # rest) = (r, rest)"
    by (simp add: run_Cons run_Nil head_step)
  then show ?thesis by blast
next
  case False
  then have "run xs v [(0, False)] (idx, Loop r # rest) = (idx, rest)"
    by (simp add: run_Cons run_Nil head_step)
  then show ?thesis by blast
qed

lemma drain_cas: "\<exists>sched idx'. run xs v sched (idx, Cas r z # rest) = (idx', rest)"
proof -
  obtain idx1 where 1: "sched_step xs v (0, False) (idx, Cas r z # rest) = (idx1, Loop r # rest)"
    by (simp add: head_step)
  obtain sched idx' where 2: "run xs v sched (idx1, Loop r # rest) = (idx', rest)"
    using drain_loop[of xs v idx1 r rest] by auto
  have "run xs v ((0, False) # sched) (idx, Cas r z # rest) = (idx', rest)"
    by (simp add: run_Cons 1 2)
  then show ?thesis by blast
qed

lemma drain_call: "\<exists>sched idx'. run xs v sched (idx, Call s e # rest) = (idx', rest)"
proof (induction "e - s" arbitrary: s e idx rest rule: less_induct)
  case less
  let ?r = "s + std_find (take (e - s) (drop s xs)) v"
  let ?m = "s + (e - s) div 2"
  consider (pruned) "\<not> s < idx"
    | (miss) "s < idx" "e - s < FIND2_GRAIN_SIZE" "\<not> ?r < e"
    | (hit) "s < idx" "e - s < FIND2_GRAIN_SIZE" "?r < e"
    | (split) "s < idx" "\<not> e - s < FIND2_GRAIN_SIZE"
    by blast
  then show ?case
  proof cases
    case pruned
    then have "run xs v [(0, False)] (idx, Call s e # rest) = (idx, rest)"
      by (simp add: run_Cons run_Nil head_step)
    then show ?thesis by blast
  next
    case miss
    then have "run xs v [(0, False)] (idx, Call s e # rest) = (idx, rest)"
      by (simp add: run_Cons run_Nil head_step Let_def)
    then show ?thesis by blast
  next
    case hit
    then have 1: "sched_step xs v (0, False) (idx, Call s e # rest) = (idx, Loop ?r # rest)"
      by (simp add: head_step Let_def)
    obtain sched idx' where 2: "run xs v sched (idx, Loop ?r # rest) = (idx', rest)"
      using drain_loop[of xs v idx ?r rest] by auto
    have "run xs v ((0, False) # sched) (idx, Call s e # rest) = (idx', rest)"
      by (simp add: run_Cons 1 2)
    then show ?thesis by blast
  next
    case split
    then have w: "2 \<le> e - s" by (simp add: FIND2_GRAIN_SIZE_def)
    have 1: "sched_step xs v (0, False) (idx, Call s e # rest) =
               (idx, Call s ?m # Call ?m e # rest)"
      using split by (simp add: head_step Let_def)
    have "?m - s < e - s" using w by simp
    then obtain sched1 idx1 where
      2: "run xs v sched1 (idx, Call s ?m # Call ?m e # rest) = (idx1, Call ?m e # rest)"
      using less[of ?m s idx "Call ?m e # rest"] by auto
    have "e - ?m < e - s" using w by simp
    then obtain sched2 idx2 where
      3: "run xs v sched2 (idx1, Call ?m e # rest) = (idx2, rest)"
      using less[of e ?m idx1 rest] by auto
    have "run xs v ((0, False) # sched1 @ sched2) (idx, Call s e # rest) = (idx2, rest)"
      by (simp add: run_Cons run_append 1 2 3)
    then show ?thesis by blast
  qed
qed

lemma drain_task: "\<exists>sched idx'. run xs v sched (idx, t # rest) = (idx', rest)"
  by (cases t) (simp_all add: drain_call drain_loop drain_cas)

lemma drain_pool: "\<exists>sched idx'. run xs v sched (idx, ts) = (idx', [])"
proof (induction ts arbitrary: idx)
  case Nil
  have "run xs v [] (idx, []) = (idx, [])" by (rule run_Nil)
  then show ?case by blast
next
  case (Cons t ts)
  obtain sched1 idx1 where 1: "run xs v sched1 (idx, t # ts) = (idx1, ts)"
    using drain_task[of xs v idx t ts] by auto
  obtain sched2 idx2 where 2: "run xs v sched2 (idx1, ts) = (idx2, [])"
    using Cons.IH[of idx1] by auto
  have "run xs v (sched1 @ sched2) (idx, t # ts) = (idx2, [])"
    by (simp add: run_append 1 2)
  then show ?case by blast
qed

lemma find2_completes: "\<exists>sched'. find2 xs v (sched @ sched') = Some (std_find xs v)"
proof (cases "length xs \<le> 2 * FIND2_GRAIN_SIZE")
  case True
  then show ?thesis by (simp add: find2_def)
next
  case False
  obtain idx ts where c: "run xs v sched (find2_init xs) = (idx, ts)"
    by (cases "run xs v sched (find2_init xs)")
  obtain sched' idx' where d: "run xs v sched' (idx, ts) = (idx', [])"
    using drain_pool[of xs v idx ts] by auto
  have "run xs v (sched @ sched') (find2_init xs) = (idx', [])"
    by (simp add: run_append c d)
  then have r: "find2 xs v (sched @ sched') = Some idx'"
    using False by (simp add: find2_def)
  then have "idx' = std_find xs v" by (rule find2_std_find)
  with r have "find2 xs v (sched @ sched') = Some (std_find xs v)" by simp
  then show ?thesis by (rule exI)
qed

lemma sched_step_le:
  assumes "find2_inv xs v c"
  shows "fst (sched_step xs v choice c) \<le> fst c"
proof -
  obtain idx ts where c: "c = (idx, ts)" by (cases c)
  obtain i sp where ch: "choice = (i, sp)" by (cases choice)
  show ?thesis
  proof (cases "i < length ts")
    case False
    then show ?thesis by (simp add: sched_step_def c ch)
  next
    case True
    have "list_all (task_ok xs v) ts" using assms by (simp add: find2_inv_def c)
    then have ok: "task_ok xs v (ts ! i)" using True by (simp add: list_all_length)
    obtain idx' new where st: "task_step xs v sp idx (ts ! i) = (idx', new)"
      by (cases "task_step xs v sp idx (ts ! i)")
    have "idx' \<le> idx" using ok st by (rule task_step_le)
    then show ?thesis using True st by (simp add: sched_step_def c ch)
  qed
qed

lemma run_le: "find2_inv xs v c \<Longrightarrow> fst (run xs v sched c) \<le> fst c"
proof (induction sched arbitrary: c)
  case Nil
  then show ?case by (simp add: run_Nil)
next
  case (Cons choice sched)
  have "fst (run xs v sched (sched_step xs v choice c)) \<le> fst (sched_step xs v choice c)"
    by (rule Cons.IH) (rule sched_step_inv[OF Cons.prems])
  also have "\<dots> \<le> fst c" using Cons.prems by (rule sched_step_le)
  finally show ?case by (simp add: run_Cons)
qed

subsection \<open>The example execution\<close>

lemma std_find_replicate: "x \<noteq> v \<Longrightarrow> std_find (replicate n x @ ys) v = n + std_find ys v"
  by (induction n) auto

lemma std_find_replicate_only: "x \<noteq> v \<Longrightarrow> std_find (replicate n x) v = n"
  using std_find_replicate[of x v n "[]"] by simp

lemma example_length: "length example_range = 5002"
  by (simp add: example_range_def)

lemma example_init: "find2_init example_range = (5002, [Call 0 5002])"
  by (simp add: find2_init_def example_length)

lemma example_leaf_right: "std_find (take 1250 (drop 2501 example_range)) (Suc 0) = 1100"
  by (simp add: example_range_def std_find_replicate)

lemma example_leaf_left: "std_find (take 1251 (drop 1250 example_range)) (Suc 0) = 50"
  by (simp add: example_range_def std_find_replicate)

lemma example_leaf_first: "std_find (take 1250 example_range) (Suc 0) = 1250"
  by (simp add: example_range_def std_find_replicate_only)

lemmas example_eval =
  run_Cons run_Nil sched_step_def FIND2_GRAIN_SIZE_def Let_def
  example_leaf_right example_leaf_left example_leaf_first

lemma example_run_prefix:
  "run example_range 1 example_prefix (find2_init example_range) =
     (5002, [Call 0 1250, Cas 1300 5002, Cas 3601 5002, Call 3751 5002])"
  unfolding example_init example_prefix_def by (simp add: example_eval)

lemma example_run:
  "run example_range 1 example_schedule (find2_init example_range) = (1300, [])"
  unfolding example_schedule_def run_append example_run_prefix by (simp add: example_eval)

lemma example_find2: "find2 example_range 1 example_schedule = Some 1300"
  unfolding find2_def example_run example_length by (simp add: FIND2_GRAIN_SIZE_def)


subsection \<open>The claims on find and find2\<close>

text \<open>
  Claim C4.  \<open>find\<close> returns what the serial \<open>std::find\<close> returns.  So does \<open>find2\<close>, whatever
  the schedule: an execution in which all tasks have returned yields the result of
  \<open>std::find\<close>, and every execution can be continued to one in which all tasks have
  returned.  That result is the lowest offset of an element equal to the value, and the
  length of the range (the iterator \<open>last\<close>) when no element is equal to it.
\<close>

theorem find_and_find2_agree_with_std_find:
  "find_cilk xs v = std_find xs v \<and>
   (\<forall>sched r. find2 xs v sched = Some r \<longrightarrow> r = std_find xs v) \<and>
   (\<forall>sched. \<exists>sched'. find2 xs v (sched @ sched') = Some (std_find xs v)) \<and>
   std_find xs v \<le> length xs \<and>
   (\<forall>i < std_find xs v. xs ! i \<noteq> v) \<and>
   (std_find xs v < length xs \<longrightarrow> xs ! std_find xs v = v)"
  using find_cilk_std_find[of xs v] find2_std_find[of xs v] find2_completes[of xs v]
    std_find_le[of xs v] std_find_first[of _ xs v] std_find_hit[of xs v]
  by blast

theorem find_and_find2_agree_with_std_find_witness:
  "find2 example_range 1 example_schedule = Some 1300 \<and>
   std_find example_range 1 = 1300 \<and>
   find_cilk example_range 1 = 1300 \<and>
   1300 < length example_range \<and>
   example_range ! 1300 = 1"
proof -
  note C = find_and_find2_agree_with_std_find[of example_range 1]
  have r: "find2 example_range 1 example_schedule = Some 1300" by (rule example_find2)
  have s: "std_find example_range 1 = 1300" using C r by auto
  have f: "find_cilk example_range 1 = 1300" using C s by simp
  have l: "1300 < length example_range" by (simp add: example_length)
  have "example_range ! 1300 = 1" using C s l by auto
  with r s f l show ?thesis by simp
qed

text \<open>
  Claim C5.  In a configuration that an execution of \<open>find2\<close> reaches, no step of any task
  (and so no continuation of the execution) increases \<open>idx\<close>; \<open>idx\<close> changes only in a
  compare-exchange that succeeds, and that one stores a strictly smaller value.  A task
  \<open>Call s e\<close> that makes its initial check when \<open>idx \<le> s\<close> leaves the pool at once: \<open>idx\<close> and
  the other tasks stay as they are, no task is created, and the step is the same for every
  content of the range and every value searched for.
\<close>

theorem find2_idx_never_increases:
  assumes "run xs v sched (find2_init xs) = (idx, ts)" and "i < length ts"
  shows "fst (sched_step xs v (i, sp) (idx, ts)) \<le> idx \<and>
         fst (run xs v sched' (idx, ts)) \<le> idx \<and>
         (fst (sched_step xs v (i, sp) (idx, ts)) \<noteq> idx \<longrightarrow> (\<exists>r. ts ! i = Cas r idx) \<and> \<not> sp) \<and>
         (ts ! i = Cas r z \<and> idx = z \<and> \<not> sp \<longrightarrow>
            sched_step xs v (i, sp) (idx, ts) = (r, take i ts @ Loop r # drop (Suc i) ts) \<and>
            r < idx) \<and>
         (ts ! i = Call s e \<and> idx \<le> s \<longrightarrow>
            sched_step xs' v' (i, sp) (idx, ts) = (idx, take i ts @ drop (Suc i) ts))"
proof -
  have inv: "find2_inv xs v (idx, ts)" using reachable_inv[of xs v sched] assms(1) by simp
  then have "list_all (task_ok xs v) ts" by (simp add: find2_inv_def)
  then have ok: "task_ok xs v (ts ! i)" using assms(2) by (simp add: list_all_length)
  have 1: "fst (sched_step xs v (i, sp) (idx, ts)) \<le> idx"
    using sched_step_le[OF inv, of "(i, sp)"] by simp
  have 2: "fst (run xs v sched' (idx, ts)) \<le> idx"
    using run_le[OF inv, of sched'] by simp
  have 3: "fst (sched_step xs v (i, sp) (idx, ts)) \<noteq> idx \<longrightarrow> (\<exists>r. ts ! i = Cas r idx) \<and> \<not> sp"
    using assms(2) by (cases "ts ! i") (auto simp: sched_step_def Let_def split: if_splits)
  have 4: "ts ! i = Cas r z \<and> idx = z \<and> \<not> sp \<longrightarrow>
            sched_step xs v (i, sp) (idx, ts) = (r, take i ts @ Loop r # drop (Suc i) ts) \<and>
            r < idx"
    using assms(2) ok by (auto simp: sched_step_def)
  have 5: "ts ! i = Call s e \<and> idx \<le> s \<longrightarrow>
            sched_step xs' v' (i, sp) (idx, ts) = (idx, take i ts @ drop (Suc i) ts)"
    using assms(2) by (auto simp: sched_step_def)
  from 1 2 3 4 5 show ?thesis by blast
qed

theorem find2_idx_never_increases_witness:
  "run example_range 1 example_prefix (find2_init example_range) =
     (5002, [Call 0 1250, Cas 1300 5002, Cas 3601 5002, Call 3751 5002]) \<and>
   sched_step example_range 1 (2, False)
     (5002, [Call 0 1250, Cas 1300 5002, Cas 3601 5002, Call 3751 5002]) =
     (3601, [Call 0 1250, Cas 1300 5002, Loop 3601, Call 3751 5002]) \<and>
   run example_range 1 (example_prefix @ [(2, False)]) (find2_init example_range) =
     (3601, [Call 0 1250, Cas 1300 5002, Loop 3601, Call 3751 5002]) \<and>
   sched_step [] (0::nat) (3, False)
     (3601, [Call 0 1250, Cas 1300 5002, Loop 3601, Call 3751 5002]) =
     (3601, [Call 0 1250, Cas 1300 5002, Loop 3601])"
proof -
  let ?ts = "[Call 0 1250, Cas 1300 5002, Cas 3601 5002, Call 3751 5002]"
  let ?us = "[Call 0 1250, Cas 1300 5002, Loop 3601, Call 3751 5002]"
  have a: "run example_range 1 example_prefix (find2_init example_range) = (5002, ?ts)"
    by (rule example_run_prefix)
  have a2: "(2::nat) < length ?ts" by simp
  have b: "sched_step example_range 1 (2, False) (5002, ?ts) = (3601, ?us)"
    using find2_idx_never_increases[OF a a2, of False "[]" 3601 5002 0 0 "[]::nat list" "0::nat"] by simp
  have c: "run example_range 1 (example_prefix @ [(2, False)]) (find2_init example_range) =
             (3601, ?us)"
    unfolding run_append a run_Cons run_Nil b by (rule refl)
  have c2: "(3::nat) < length ?us" by simp
  have d: "sched_step [] (0::nat) (3, False) (3601, ?us) =
             (3601, [Call 0 1250, Cas 1300 5002, Loop 3601])"
    using find2_idx_never_increases[OF c c2, of False "[]" 0 0 3751 5002 "[]::nat list" "0::nat"] by simp
  from a b c d show ?thesis by simp
qed

text \<open>
  Claim C10.  In every configuration that an execution of \<open>find2\<close> reaches, \<open>idx\<close> is the
  initial value \<open>last - first\<close> or the offset of an element equal to the value; and the
  iterator that \<open>find2\<close> returns is \<open>last\<close> or points at an element equal to the value.
\<close>

theorem find2_idx_is_end_or_match:
  "(run xs v sched (find2_init xs) = (idx, ts) \<longrightarrow>
      idx = length xs \<or> (idx < length xs \<and> xs ! idx = v)) \<and>
   (find2 xs v sched = Some r \<longrightarrow> r = length xs \<or> (r < length xs \<and> xs ! r = v))"
proof (intro conjI impI)
  assume "run xs v sched (find2_init xs) = (idx, ts)"
  then have "find2_inv xs v (idx, ts)" using reachable_inv[of xs v sched] by simp
  then show "idx = length xs \<or> (idx < length xs \<and> xs ! idx = v)"
    by (simp add: find2_inv_def match_or_end_def)
next
  assume "find2 xs v sched = Some r"
  then have "r = std_find xs v" by (rule find2_std_find)
  then show "r = length xs \<or> (r < length xs \<and> xs ! r = v)"
    using std_find_le[of xs v] std_find_hit[of xs v] by auto
qed

theorem find2_idx_is_end_or_match_witness:
  "run example_range 1 (example_prefix @ [(2, False)]) (find2_init example_range) =
     (3601, [Call 0 1250, Cas 1300 5002, Loop 3601, Call 3751 5002]) \<and>
   3601 < length example_range \<and> example_range ! 3601 = 1 \<and>
   find2 example_range 1 example_schedule = Some 1300 \<and>
   1300 < length example_range \<and> example_range ! 1300 = 1"
proof -
  let ?us = "[Call 0 1250, Cas 1300 5002, Loop 3601, Call 3751 5002]"
  have c: "run example_range 1 (example_prefix @ [(2, False)]) (find2_init example_range) =
             (3601, ?us)"
    unfolding run_append example_run_prefix by (simp add: example_eval)
  have r: "find2 example_range 1 example_schedule = Some 1300" by (rule example_find2)
  have 1: "3601 < length example_range \<and> example_range ! 3601 = 1"
    using find2_idx_is_end_or_match[of example_range 1 "example_prefix @ [(2, False)]" 3601 ?us]
      c by (simp add: example_length)
  have 2: "1300 < length example_range \<and> example_range ! 1300 = 1"
    using find2_idx_is_end_or_match[of example_range 1 example_schedule _ _ 1300]
      r by (simp add: example_length)
  from c r 1 2 show ?thesis by simp
qed

section \<open>Stable sort\<close>

subsection \<open>Strict weak orders\<close>

lemma swo_irrefl: "strict_weak_order cmp \<Longrightarrow> \<not> cmp x x"
  by (simp add: strict_weak_order_def)

lemma swo_trans: "strict_weak_order cmp \<Longrightarrow> cmp x y \<Longrightarrow> cmp y z \<Longrightarrow> cmp x z"
  unfolding strict_weak_order_def by blast

lemma swo_asym: "strict_weak_order cmp \<Longrightarrow> cmp x y \<Longrightarrow> \<not> cmp y x"
  unfolding strict_weak_order_def by blast

lemma swo_neg_trans: "strict_weak_order cmp \<Longrightarrow> \<not> cmp x y \<Longrightarrow> \<not> cmp y z \<Longrightarrow> \<not> cmp x z"
  unfolding strict_weak_order_def by blast

lemma swo_less_le: "strict_weak_order cmp \<Longrightarrow> cmp x y \<Longrightarrow> \<not> cmp z y \<Longrightarrow> cmp x z"
  unfolding strict_weak_order_def by blast

lemma swo_le_less: "strict_weak_order cmp \<Longrightarrow> \<not> cmp y x \<Longrightarrow> cmp y z \<Longrightarrow> cmp x z"
  unfolding strict_weak_order_def by blast

lemma swo_nat_less: "strict_weak_order ((<) :: nat \<Rightarrow> nat \<Rightarrow> bool)"
  unfolding strict_weak_order_def by auto

subsection \<open>The reference sort\<close>

lemma set_insert_stable: "set (insert_stable cmp x ys) = insert x (set ys)"
  by (induction ys) auto

lemma mset_insert_stable: "mset (insert_stable cmp x ys) = add_mset x (mset ys)"
  by (induction ys) auto

lemma mset_std_stable_sort: "mset (std_stable_sort xs cmp) = mset xs"
  by (induction xs) (auto simp: std_stable_sort_def mset_insert_stable)

lemma length_std_stable_sort: "length (std_stable_sort xs cmp) = length xs"
  using mset_std_stable_sort[of xs cmp] by (metis size_mset)

lemma std_stable_sort_Nil: "std_stable_sort [] cmp = []"
  by (simp add: std_stable_sort_def)

lemma std_stable_sort_Cons:
  "std_stable_sort (x # xs) cmp = insert_stable cmp x (std_stable_sort xs cmp)"
  by (simp add: std_stable_sort_def)

lemma sorted_insert_stable:
  assumes "strict_weak_order cmp" and "sorted_by cmp ys"
  shows "sorted_by cmp (insert_stable cmp x ys)"
  using assms(2)
proof (induction ys)
  case Nil
  then show ?case by (simp add: sorted_by_def)
next
  case (Cons y ys)
  have tl: "sorted_by cmp ys" and hd: "\<forall>z\<in>set ys. \<not> cmp z y"
    using Cons.prems by (auto simp: sorted_by_def)
  show ?case
  proof (cases "cmp y x")
    case True
    have "\<not> cmp x y" using assms(1) True by (rule swo_asym)
    then show ?thesis
      using True hd Cons.IH[OF tl] by (auto simp: sorted_by_def set_insert_stable)
  next
    case False
    have "\<forall>z\<in>set ys. \<not> cmp z x"
      using hd False swo_neg_trans[OF assms(1)] by blast
    then show ?thesis using False Cons.prems by (auto simp: sorted_by_def)
  qed
qed

lemma sorted_std_stable_sort:
  "strict_weak_order cmp \<Longrightarrow> sorted_by cmp (std_stable_sort xs cmp)"
proof (induction xs)
  case Nil
  then show ?case by (simp add: std_stable_sort_Nil sorted_by_def)
next
  case (Cons x xs)
  then show ?case by (simp add: std_stable_sort_Cons sorted_insert_stable)
qed

lemma filter_insert_stable:
  assumes "strict_weak_order cmp"
  shows "filter (equiv_by cmp k) (insert_stable cmp x ys) =
           (if equiv_by cmp k x then x # filter (equiv_by cmp k) ys
            else filter (equiv_by cmp k) ys)"
proof (induction ys)
  case Nil
  then show ?case by simp
next
  case (Cons y ys)
  show ?case
  proof (cases "cmp y x")
    case False
    then show ?thesis by simp
  next
    case True
    have "equiv_by cmp k x \<Longrightarrow> \<not> equiv_by cmp k y"
      unfolding equiv_by_def using True assms unfolding strict_weak_order_def by blast
    then show ?thesis using True Cons.IH by auto
  qed
qed

lemma stable_std_stable_sort:
  "strict_weak_order cmp \<Longrightarrow>
   filter (equiv_by cmp k) (std_stable_sort xs cmp) = filter (equiv_by cmp k) xs"
  by (induction xs) (simp_all add: std_stable_sort_Nil std_stable_sort_Cons filter_insert_stable)

subsection \<open>Merging\<close>

lemma serial_merge_Nil [simp]: "serial_merge [] bs cmp = bs"
  by (cases bs) simp_all

lemma serial_merge_single: "serial_merge [x] bs cmp = insert_stable cmp x bs"
  by (induction bs) auto

lemma insert_serial_merge:
  assumes "strict_weak_order cmp"
  shows "insert_stable cmp x (serial_merge as bs cmp) =
           serial_merge (insert_stable cmp x as) bs cmp"
  using assms
proof (induction as bs cmp rule: serial_merge.induct)
  case (1 a as b bs cmp)
  note swo = "1.prems"
  show ?case
  proof (cases "cmp b a")
    case ba: True
    note IH = "1.IH"(1)[OF ba swo]
    show ?thesis
    proof (cases "cmp b x")
      case bx: True
      have "insert_stable cmp x (serial_merge (a # as) (b # bs) cmp) =
              b # serial_merge (insert_stable cmp x (a # as)) bs cmp"
        using ba bx IH by simp
      also have "\<dots> = serial_merge (insert_stable cmp x (a # as)) (b # bs) cmp"
        using ba bx by simp
      finally show ?thesis .
    next
      case bx: False
      have ax: "\<not> cmp a x" using swo_trans[OF swo ba] bx by blast
      show ?thesis using ba bx ax by simp
    qed
  next
    case ba: False
    note IH = "1.IH"(2)[OF ba swo]
    show ?thesis
    proof (cases "cmp a x")
      case ax: True
      show ?thesis using ba ax IH by simp
    next
      case ax: False
      have bx: "\<not> cmp b x" using swo ba ax by (rule swo_neg_trans)
      show ?thesis using ba ax bx by simp
    qed
  qed
next
  case (2 as cmp)
  then show ?case by simp
next
  case (3 b bs cmp)
  then show ?case by (simp add: serial_merge_single)
qed

lemma std_stable_sort_append:
  assumes "strict_weak_order cmp"
  shows "std_stable_sort (xs @ ys) cmp =
           serial_merge (std_stable_sort xs cmp) (std_stable_sort ys cmp) cmp"
proof (induction xs)
  case Nil
  show ?case by (simp add: std_stable_sort_Nil)
next
  case (Cons x xs)
  show ?case
    using Cons.IH by (simp add: std_stable_sort_Cons insert_serial_merge[OF assms])
qed

lemma serial_merge_left_first:
  assumes "\<forall>a\<in>set as1. \<forall>b\<in>set bs. \<not> cmp b a"
  shows "serial_merge (as1 @ as2) bs cmp = as1 @ serial_merge as2 bs cmp"
  using assms
proof (induction as1)
  case Nil
  show ?case by simp
next
  case (Cons a as1)
  then show ?case by (cases bs) auto
qed

lemma serial_merge_right_first:
  assumes "\<forall>b\<in>set bs1. \<forall>a\<in>set as. cmp b a"
  shows "serial_merge as (bs1 @ bs2) cmp = bs1 @ serial_merge as bs2 cmp"
  using assms
proof (induction bs1)
  case Nil
  show ?case by simp
next
  case (Cons b bs1)
  then show ?case by (cases as) auto
qed

lemma serial_merge_append:
  assumes "\<forall>b\<in>set bs1. \<forall>a\<in>set as2. cmp b a"
    and "\<forall>a\<in>set as1. \<forall>b\<in>set bs2. \<not> cmp b a"
  shows "serial_merge (as1 @ as2) (bs1 @ bs2) cmp =
           serial_merge as1 bs1 cmp @ serial_merge as2 bs2 cmp"
  using assms
proof (induction as1 bs1 cmp rule: serial_merge.induct)
  case (1 a as b bs cmp)
  show ?case
  proof (cases "cmp b a")
    case True
    have "serial_merge (a # as @ as2) (bs @ bs2) cmp =
            serial_merge (a # as) bs cmp @ serial_merge as2 bs2 cmp"
      using "1.IH"(1)[OF True] "1.prems" by simp
    then show ?thesis using True by simp
  next
    case False
    have "serial_merge (as @ as2) (b # bs @ bs2) cmp =
            serial_merge as (b # bs) cmp @ serial_merge as2 bs2 cmp"
      using "1.IH"(2)[OF False] "1.prems" by simp
    then show ?thesis using False by simp
  qed
next
  case (2 as cmp)
  then show ?case using serial_merge_left_first[of as bs2 cmp as2] by simp
next
  case (3 b bs cmp)
  then show ?case using serial_merge_right_first[of "b # bs" as2 cmp bs2] by simp
qed

lemma mset_serial_merge: "mset (serial_merge as bs cmp) = mset as + mset bs"
  by (induction as bs cmp rule: serial_merge.induct) auto

subsection \<open>The parallel merge\<close>

lemma sorted_by_take: "sorted_by cmp xs \<Longrightarrow> sorted_by cmp (take n xs)"
  unfolding sorted_by_def by (rule sorted_wrt_take)

lemma sorted_by_drop: "sorted_by cmp xs \<Longrightarrow> sorted_by cmp (drop n xs)"
  unfolding sorted_by_def by (rule sorted_wrt_drop)

lemma sorted_by_nth:
  assumes "strict_weak_order cmp" and "sorted_by cmp xs" and "i \<le> j" and "j < length xs"
  shows "\<not> cmp (xs ! j) (xs ! i)"
proof (cases "i = j")
  case True
  then show ?thesis using assms(1) by (simp add: swo_irrefl)
next
  case False
  then have "i < j" using assms(3) by simp
  then show ?thesis
    using assms(2,4) sorted_wrt_nth_less[of "\<lambda>x y. \<not> cmp y x" xs i j] by (simp add: sorted_by_def)
qed

lemma sorted_by_take_le:
  assumes "strict_weak_order cmp" and "sorted_by cmp xs" and "n < length xs"
    and "a \<in> set (take n xs)"
  shows "\<not> cmp (xs ! n) a"
proof -
  obtain i where "i < n" "a = xs ! i"
    using assms(3,4) by (auto simp: in_set_conv_nth)
  then show ?thesis using sorted_by_nth[OF assms(1,2), of i n] assms(3) by simp
qed

lemma sorted_by_drop_ge:
  assumes "strict_weak_order cmp" and "sorted_by cmp xs" and "n < length xs"
    and "a \<in> set (drop n xs)"
  shows "\<not> cmp a (xs ! n)"
proof -
  obtain i where "i < length xs - n" "a = xs ! (n + i)"
    using assms(3,4) by (auto simp: in_set_conv_nth)
  then show ?thesis using sorted_by_nth[OF assms(1,2), of n "n + i"] by simp
qed

lemma dropWhile_lower:
  assumes "strict_weak_order cmp" and "sorted_by cmp bs"
    and "b \<in> set (dropWhile (\<lambda>x. cmp x v) bs)"
  shows "\<not> cmp b v"
  using assms(2,3)
proof (induction bs)
  case Nil
  then show ?case by simp
next
  case (Cons y ys)
  have tl: "sorted_by cmp ys" and hd: "\<forall>z\<in>set ys. \<not> cmp z y"
    using Cons.prems(1) by (auto simp: sorted_by_def)
  show ?case
  proof (cases "cmp y v")
    case True
    then show ?thesis using Cons.IH[OF tl] Cons.prems(2) by simp
  next
    case False
    then have "b = y \<or> b \<in> set ys" using Cons.prems(2) by simp
    then show ?thesis using False hd swo_neg_trans[OF assms(1)] by blast
  qed
qed

lemma dropWhile_upper:
  assumes "strict_weak_order cmp" and "sorted_by cmp as"
    and "a \<in> set (dropWhile (\<lambda>x. \<not> cmp v x) as)"
  shows "cmp v a"
  using assms(2,3)
proof (induction as)
  case Nil
  then show ?case by simp
next
  case (Cons y ys)
  have tl: "sorted_by cmp ys" and hd: "\<forall>z\<in>set ys. \<not> cmp z y"
    using Cons.prems(1) by (auto simp: sorted_by_def)
  show ?case
  proof (cases "cmp v y")
    case False
    then show ?thesis using Cons.IH[OF tl] Cons.prems(2) by simp
  next
    case True
    then have "a = y \<or> a \<in> set ys" using Cons.prems(2) by simp
    then show ?thesis using True hd swo_less_le[OF assms(1)] by blast
  qed
qed

lemma take_lower_bound: "take (lower_bound bs v cmp) bs = takeWhile (\<lambda>x. cmp x v) bs"
  unfolding lower_bound_def by (rule takeWhile_eq_take[symmetric])

lemma drop_lower_bound: "drop (lower_bound bs v cmp) bs = dropWhile (\<lambda>x. cmp x v) bs"
  unfolding lower_bound_def by (rule dropWhile_eq_drop[symmetric])

lemma take_upper_bound: "take (upper_bound as v cmp) as = takeWhile (\<lambda>x. \<not> cmp v x) as"
  unfolding upper_bound_def by (rule takeWhile_eq_take[symmetric])

lemma drop_upper_bound: "drop (upper_bound as v cmp) as = dropWhile (\<lambda>x. \<not> cmp v x) as"
  unfolding upper_bound_def by (rule dropWhile_eq_drop[symmetric])

text \<open>Bisecting the left input at a pivot and the right input at its lower bound.\<close>

lemma split_left:
  assumes swo: "strict_weak_order cmp" and sa: "sorted_by cmp as" and sb: "sorted_by cmp bs"
    and n: "n < length as"
  shows "serial_merge as bs cmp =
           serial_merge (take n as) (take (lower_bound bs (as ! n) cmp) bs) cmp @
           serial_merge (drop n as) (drop (lower_bound bs (as ! n) cmp) bs) cmp"
proof -
  define v where "v = as ! n"
  define k where "k = lower_bound bs v cmp"
  have tk: "take k bs = takeWhile (\<lambda>x. cmp x v) bs" unfolding k_def by (rule take_lower_bound)
  have dk: "drop k bs = dropWhile (\<lambda>x. cmp x v) bs" unfolding k_def by (rule drop_lower_bound)
  have 1: "\<forall>b\<in>set (take k bs). \<forall>a\<in>set (drop n as). cmp b a"
  proof (intro ballI)
    fix b a assume b: "b \<in> set (take k bs)" and a: "a \<in> set (drop n as)"
    have bv: "cmp b v" using set_takeWhileD[OF b[unfolded tk]] by simp
    have av: "\<not> cmp a v" unfolding v_def by (rule sorted_by_drop_ge[OF swo sa n a])
    show "cmp b a" by (rule swo_less_le[OF swo bv av])
  qed
  have 2: "\<forall>a\<in>set (take n as). \<forall>b\<in>set (drop k bs). \<not> cmp b a"
  proof (intro ballI)
    fix a b assume a: "a \<in> set (take n as)" and b: "b \<in> set (drop k bs)"
    have va: "\<not> cmp v a" unfolding v_def by (rule sorted_by_take_le[OF swo sa n a])
    have bv: "\<not> cmp b v" by (rule dropWhile_lower[OF swo sb b[unfolded dk]])
    show "\<not> cmp b a" by (rule swo_neg_trans[OF swo bv va])
  qed
  have "serial_merge (take n as @ drop n as) (take k bs @ drop k bs) cmp =
          serial_merge (take n as) (take k bs) cmp @ serial_merge (drop n as) (drop k bs) cmp"
    using 1 2 by (rule serial_merge_append)
  then show ?thesis unfolding k_def v_def by (simp only: append_take_drop_id)
qed

text \<open>Bisecting the right input at a pivot and the left input at its upper bound.\<close>

lemma split_right:
  assumes swo: "strict_weak_order cmp" and sa: "sorted_by cmp as" and sb: "sorted_by cmp bs"
    and n: "n < length bs"
  shows "serial_merge as bs cmp =
           serial_merge (take (upper_bound as (bs ! n) cmp) as) (take n bs) cmp @
           serial_merge (drop (upper_bound as (bs ! n) cmp) as) (drop n bs) cmp"
proof -
  define v where "v = bs ! n"
  define k where "k = upper_bound as v cmp"
  have tk: "take k as = takeWhile (\<lambda>x. \<not> cmp v x) as" unfolding k_def by (rule take_upper_bound)
  have dk: "drop k as = dropWhile (\<lambda>x. \<not> cmp v x) as" unfolding k_def by (rule drop_upper_bound)
  have 1: "\<forall>b\<in>set (take n bs). \<forall>a\<in>set (drop k as). cmp b a"
  proof (intro ballI)
    fix b a assume b: "b \<in> set (take n bs)" and a: "a \<in> set (drop k as)"
    have vb: "\<not> cmp v b" unfolding v_def by (rule sorted_by_take_le[OF swo sb n b])
    have va: "cmp v a" by (rule dropWhile_upper[OF swo sa a[unfolded dk]])
    show "cmp b a" by (rule swo_le_less[OF swo vb va])
  qed
  have 2: "\<forall>a\<in>set (take k as). \<forall>b\<in>set (drop n bs). \<not> cmp b a"
  proof (intro ballI)
    fix a b assume a: "a \<in> set (take k as)" and b: "b \<in> set (drop n bs)"
    have va: "\<not> cmp v a" using set_takeWhileD[OF a[unfolded tk]] by simp
    have bv: "\<not> cmp b v" unfolding v_def by (rule sorted_by_drop_ge[OF swo sb n b])
    show "\<not> cmp b a" by (rule swo_neg_trans[OF swo bv va])
  qed
  have "serial_merge (take k as @ drop k as) (take n bs @ drop n bs) cmp =
          serial_merge (take k as) (take n bs) cmp @ serial_merge (drop k as) (drop n bs) cmp"
    using 1 2 by (rule serial_merge_append)
  then show ?thesis unfolding k_def v_def by (simp only: append_take_drop_id)
qed

lemma parallel_merge_serial_merge:
  assumes "strict_weak_order cmp" and "sorted_by cmp as" and "sorted_by cmp bs"
  shows "parallel_merge as bs cmp = serial_merge as bs cmp"
  using assms
proof (induction as bs cmp rule: parallel_merge.induct)
  case (1 as bs cmp)
  note swo = "1.prems"(1) and sa = "1.prems"(2) and sb = "1.prems"(3)
  show ?case
  proof (cases "length as + length bs < CILKSTL_PARALLEL_MERGE_CUTOFF")
    case True
    then show ?thesis by (subst parallel_merge.simps) simp
  next
    case big: False
    show ?thesis
    proof (cases "length bs < length as")
      case True
      define n where "n = length as - length as div 2"
      define k where "k = lower_bound bs (as ! n) cmp"
      have n: "n < length as"
        using big True by (simp add: n_def CILKSTL_PARALLEL_MERGE_CUTOFF_def)
      have l: "parallel_merge (take n as) (take k bs) cmp =
                 serial_merge (take n as) (take k bs) cmp"
        by (rule "1.IH"(1)[OF big True n_def k_def swo sorted_by_take[OF sa] sorted_by_take[OF sb]])
      have r: "parallel_merge (drop n as) (drop k bs) cmp =
                 serial_merge (drop n as) (drop k bs) cmp"
        by (rule "1.IH"(2)[OF big True n_def k_def swo sorted_by_drop[OF sa] sorted_by_drop[OF sb]])
      have "parallel_merge as bs cmp =
              parallel_merge (take n as) (take k bs) cmp @
              parallel_merge (drop n as) (drop k bs) cmp"
        unfolding n_def k_def using big True by (subst parallel_merge.simps) (simp only: Let_def if_True if_False)
      also have "\<dots> = serial_merge (take n as) (take k bs) cmp @
              serial_merge (drop n as) (drop k bs) cmp"
        by (simp only: l r)
      also have "\<dots> = serial_merge as bs cmp"
        unfolding k_def by (rule split_left[OF swo sa sb n, symmetric])
      finally show ?thesis .
    next
      case False
      define n where "n = length bs div 2"
      define k where "k = upper_bound as (bs ! n) cmp"
      have n: "n < length bs"
        using big False by (simp add: n_def CILKSTL_PARALLEL_MERGE_CUTOFF_def)
      have l: "parallel_merge (take k as) (take n bs) cmp =
                 serial_merge (take k as) (take n bs) cmp"
        by (rule "1.IH"(3)[OF big False n_def k_def swo sorted_by_take[OF sa] sorted_by_take[OF sb]])
      have r: "parallel_merge (drop k as) (drop n bs) cmp =
                 serial_merge (drop k as) (drop n bs) cmp"
        by (rule "1.IH"(4)[OF big False n_def k_def swo sorted_by_drop[OF sa] sorted_by_drop[OF sb]])
      have "parallel_merge as bs cmp =
              parallel_merge (take k as) (take n bs) cmp @
              parallel_merge (drop k as) (drop n bs) cmp"
        unfolding n_def k_def using big False by (subst parallel_merge.simps) (simp only: Let_def if_True if_False)
      also have "\<dots> = serial_merge (take k as) (take n bs) cmp @
              serial_merge (drop k as) (drop n bs) cmp"
        by (simp only: l r)
      also have "\<dots> = serial_merge as bs cmp"
        unfolding k_def by (rule split_right[OF swo sa sb n, symmetric])
      finally show ?thesis .
    qed
  qed
qed

lemma parallel_merge_sorts:
  assumes "strict_weak_order cmp"
  shows "parallel_merge (std_stable_sort xs cmp) (std_stable_sort ys cmp) cmp =
           std_stable_sort (xs @ ys) cmp"
  using assms
  by (simp add: parallel_merge_serial_merge sorted_std_stable_sort std_stable_sort_append)

subsection \<open>Storage\<close>

lemma mset_parallel_merge: "mset (parallel_merge as bs cmp) = mset as + mset bs"
proof (induction as bs cmp rule: parallel_merge.induct)
  case (1 as bs cmp)
  have td: "mset (take n xs) + mset (drop n xs) = mset xs" for n and xs :: "'a list"
  proof -
    have "mset (take n xs @ drop n xs) = mset xs" by simp
    then show ?thesis by (simp only: mset_append)
  qed
  show ?case
  proof (cases "length as + length bs < CILKSTL_PARALLEL_MERGE_CUTOFF")
    case True
    then show ?thesis by (subst parallel_merge.simps) (simp add: mset_serial_merge)
  next
    case big: False
    show ?thesis
    proof (cases "length bs < length as")
      case True
      define n where "n = length as - length as div 2"
      define k where "k = lower_bound bs (as ! n) cmp"
      have "parallel_merge as bs cmp =
              parallel_merge (take n as) (take k bs) cmp @
              parallel_merge (drop n as) (drop k bs) cmp"
        unfolding n_def k_def using big True
        by (subst parallel_merge.simps) (simp only: Let_def if_True if_False)
      then have "mset (parallel_merge as bs cmp) =
              (mset (take n as) + mset (drop n as)) + (mset (take k bs) + mset (drop k bs))"
        using "1.IH"(1)[OF big True n_def k_def] "1.IH"(2)[OF big True n_def k_def] by simp
      then show ?thesis by (simp only: td)
    next
      case False
      define n where "n = length bs div 2"
      define k where "k = upper_bound as (bs ! n) cmp"
      have "parallel_merge as bs cmp =
              parallel_merge (take k as) (take n bs) cmp @
              parallel_merge (drop k as) (drop n bs) cmp"
        unfolding n_def k_def using big False
        by (subst parallel_merge.simps) (simp only: Let_def if_True if_False)
      then have "mset (parallel_merge as bs cmp) =
              (mset (take k as) + mset (drop k as)) + (mset (take n bs) + mset (drop n bs))"
        using "1.IH"(3)[OF big False n_def k_def] "1.IH"(4)[OF big False n_def k_def] by simp
      then show ?thesis by (simp only: td)
    qed
  qed
qed

lemma length_parallel_merge: "length (parallel_merge as bs cmp) = length as + length bs"
proof -
  have "size (mset (parallel_merge as bs cmp)) = size (mset as + mset bs)"
    by (simp only: mset_parallel_merge)
  then show ?thesis by simp
qed

lemma assign_all_objects:
  assumes "length cells = length vs" and "overwrites \<or> None \<notin> set cells"
  shows "assign_all overwrites cells vs = Inr (map Some vs)"
  using assms
proof (induction overwrites cells vs rule: assign_all.induct)
  case (1 overwrites cells)
  then show ?case by simp
next
  case (2 overwrites v vs)
  then show ?case by simp
next
  case (3 overwrites c cells v vs)
  have g: "\<not> (c = None \<and> \<not> overwrites)" using "3.prems"(2) by (cases c) auto
  have l: "length cells = length vs" using "3.prems"(1) by simp
  have k: "overwrites \<or> None \<notin> set cells" using "3.prems"(2) by auto
  have "assign_all overwrites cells vs = Inr (map Some vs)" by (rule "3.IH"[OF g l k])
  then show ?case using g by simp
qed

lemma assign_all_raw:
  "vs \<noteq> [] \<Longrightarrow> cells \<noteq> [] \<Longrightarrow> hd cells = None \<Longrightarrow> assign_all False cells vs = Inl Raw_Assign"
  by (cases cells; cases vs) simp_all

lemma read_all_objects: "read_all (map Some vs) = Inr vs"
  by (induction vs) simp_all

lemma merge_from_buffer_objects:
  "merge_from_buffer (map Some a) (map Some b) cmp = Inr (parallel_merge a b cmp)"
  by (simp add: merge_from_buffer_def read_all_objects)

lemma assign_all_onto_objects:
  assumes "length ws = length vs"
  shows "assign_all overwrites (map Some ws) vs = Inr (map Some vs)"
proof (rule assign_all_objects)
  show "length (map Some ws) = length vs" using assms by simp
  show "overwrites \<or> None \<notin> set (map Some ws)" by auto
qed

subsection \<open>merge\_sort and stable\_sort\<close>

lemma merge_sort_base:
  assumes "length xs div 2 \<le> CILKSTL_PARALLEL_CUTOFF"
  shows "merge_sort overwrites xs out cmp =
           (case merge_to_buffer overwrites
                   (std_stable_sort (take (length xs div 2) xs) cmp)
                   (std_stable_sort (drop (length xs div 2) xs) cmp)
                   (take (length xs) out) cmp of
              Inl f \<Rightarrow> Inl f
            | Inr out' \<Rightarrow>
                Inr (True,
                     std_stable_sort (take (length xs div 2) xs) cmp @
                     std_stable_sort (drop (length xs div 2) xs) cmp,
                     out'))"
  using assms by (subst merge_sort.simps) (simp only: Let_def if_True)

lemma merge_sort_rec:
  assumes "\<not> length xs div 2 \<le> CILKSTL_PARALLEL_CUTOFF"
    and "merge_sort overwrites (take (length xs div 2) xs) (take (length xs div 2) out) cmp =
           Inr (r1, lo, map Some v1)"
    and "merge_sort overwrites (drop (length xs div 2) xs)
           (drop (length xs div 2) (take (length xs) out)) cmp = Inr (r2, hi, map Some v2)"
    and "length v1 = length lo" and "length v2 = length hi"
  shows "merge_sort overwrites xs out cmp =
           (if r1 \<and> r2 then Inr (False, parallel_merge v1 v2 cmp, map Some (v1 @ v2))
            else if \<not> r1 \<and> \<not> r2 then
              Inr (True, lo @ hi, map Some (parallel_merge lo hi cmp))
            else if r1 then Inr (False, parallel_merge v1 hi cmp, map Some (v1 @ hi))
            else Inr (False, parallel_merge lo v2 cmp, map Some (lo @ v2)))"
proof -
  have obj: "map Some v1 @ map Some v2 = map Some (v1 @ v2)" by simp
  have ff: "merge_to_buffer overwrites lo hi (map Some v1 @ map Some v2) cmp =
              Inr (map Some (parallel_merge lo hi cmp))"
    unfolding merge_to_buffer_def obj
    by (rule assign_all_onto_objects) (simp add: length_parallel_merge assms(4,5))
  have mh: "move_contents overwrites hi (map Some v2) = Inr (map Some hi)"
    unfolding move_contents_def by (rule assign_all_onto_objects) (simp add: assms(5))
  have ml: "move_contents overwrites lo (map Some v1) = Inr (map Some lo)"
    unfolding move_contents_def by (rule assign_all_onto_objects) (simp add: assms(4))
  show ?thesis
    using assms(1)
    by (subst merge_sort.simps)
       (simp add: assms(2,3) ff mh ml merge_from_buffer_objects)
qed

lemma merge_sort_base_result:
  assumes swo: "strict_weak_order cmp" and lo: "length out = length xs"
    and ok: "overwrites \<or> None \<notin> set out"
    and small: "length xs div 2 \<le> CILKSTL_PARALLEL_CUTOFF"
  shows "merge_sort overwrites xs out cmp =
           Inr (True,
                std_stable_sort (take (length xs div 2) xs) cmp @
                std_stable_sort (drop (length xs div 2) xs) cmp,
                map Some (std_stable_sort xs cmp))"
proof -
  have pm: "parallel_merge (std_stable_sort (take (length xs div 2) xs) cmp)
              (std_stable_sort (drop (length xs div 2) xs) cmp) cmp = std_stable_sort xs cmp"
    using parallel_merge_sorts[OF swo, of "take (length xs div 2) xs" "drop (length xs div 2) xs"]
    by simp
  have full: "take (length xs) out = out" using lo by simp
  have a: "assign_all overwrites out (std_stable_sort xs cmp) =
             Inr (map Some (std_stable_sort xs cmp))"
  proof (rule assign_all_objects)
    show "length out = length (std_stable_sort xs cmp)"
      using lo by (simp only: length_std_stable_sort)
    show "overwrites \<or> None \<notin> set out" by (rule ok)
  qed
  show ?thesis
    unfolding merge_sort_base[OF small] merge_to_buffer_def full pm a by simp
qed

text \<open>
  With a buffer of the length of the range, and either an element type whose assignment
  only overwrites or a buffer that holds objects already, \<open>merge_sort\<close> returns, and the
  stably sorted input is where the flag says.
\<close>

lemma merge_sort_result:
  assumes swo: "strict_weak_order cmp"
  shows "length out = length xs \<Longrightarrow> overwrites \<or> None \<notin> set out \<Longrightarrow>
         \<exists>r xs' vs. merge_sort overwrites xs out cmp = Inr (r, xs', map Some vs) \<and>
           (if r then vs else xs') = std_stable_sort xs cmp \<and>
           length xs' = length xs \<and> length vs = length xs"
proof (induction "length xs" arbitrary: xs out rule: less_induct)
  case less
  note lo = less.prems(1) and ok = less.prems(2)
  define h where "h = length xs div 2"
  have split: "std_stable_sort xs cmp =
                 parallel_merge (std_stable_sort (take h xs) cmp) (std_stable_sort (drop h xs) cmp) cmp"
    using parallel_merge_sorts[OF swo, of "take h xs" "drop h xs"] by simp
  have len: "length (take h xs) + length (drop h xs) = length xs" by simp
  have full: "take (length xs) out = out" using lo by simp
  show ?case
  proof (cases "h \<le> CILKSTL_PARALLEL_CUTOFF")
    case True
    have c: "length xs div 2 \<le> CILKSTL_PARALLEL_CUTOFF" using True by (simp only: h_def)
    have "merge_sort overwrites xs out cmp =
            Inr (True, std_stable_sort (take h xs) cmp @ std_stable_sort (drop h xs) cmp,
                 map Some (std_stable_sort xs cmp))"
      unfolding h_def using swo lo ok c by (rule merge_sort_base_result)
    moreover have "length (std_stable_sort (take h xs) cmp @ std_stable_sort (drop h xs) cmp) =
                     length xs"
      using len by (simp only: length_append length_std_stable_sort)
    ultimately show ?thesis
      by (intro exI[of _ True] exI[of _ "std_stable_sort (take h xs) cmp @ std_stable_sort (drop h xs) cmp"]
          exI[of _ "std_stable_sort xs cmp"]) (simp add: length_std_stable_sort)
  next
    case False
    then have big: "2 \<le> length xs"
      by (simp add: h_def CILKSTL_PARALLEL_CUTOFF_def)
    have l1: "length (take h xs) < length xs" using big by (simp add: h_def)
    have l2: "length (drop h xs) < length xs" using big by (simp add: h_def)
    have o1: "length (take h out) = length (take h xs)" using lo by simp
    have o2: "length (drop h (take (length xs) out)) = length (drop h xs)" using lo by simp
    have sub1: "set (take h out) \<subseteq> set out" by (rule set_take_subset)
    have sub2: "set (drop h out) \<subseteq> set out" by (rule set_drop_subset)
    have k1: "overwrites \<or> None \<notin> set (take h out)"
    proof (cases overwrites)
      case True
      then show ?thesis by (rule disjI1)
    next
      case False
      then have "None \<notin> set out" using ok by simp
      then have "None \<notin> set (take h out)" using sub1 by (rule contra_subsetD[rotated])
      then show ?thesis by (rule disjI2)
    qed
    have k2: "overwrites \<or> None \<notin> set (drop h (take (length xs) out))"
    proof (cases overwrites)
      case True
      then show ?thesis by (rule disjI1)
    next
      case False
      then have "None \<notin> set out" using ok by simp
      then have "None \<notin> set (drop h out)" using sub2 by (rule contra_subsetD[rotated])
      then show ?thesis unfolding full by (rule disjI2)
    qed
    obtain r1 lo1 v1 where
      1: "merge_sort overwrites (take h xs) (take h out) cmp = Inr (r1, lo1, map Some v1)"
      and s1: "(if r1 then v1 else lo1) = std_stable_sort (take h xs) cmp"
      and n1: "length lo1 = length (take h xs)" "length v1 = length (take h xs)"
      using less.hyps[OF l1 o1 k1] by auto
    obtain r2 hi2 v2 where
      2: "merge_sort overwrites (drop h xs) (drop h (take (length xs) out)) cmp =
            Inr (r2, hi2, map Some v2)"
      and s2: "(if r2 then v2 else hi2) = std_stable_sort (drop h xs) cmp"
      and n2: "length hi2 = length (drop h xs)" "length v2 = length (drop h xs)"
      using less.hyps[OF l2 o2 k2] by auto
    have e1: "length v1 = length lo1" using n1 by simp
    have e2: "length v2 = length hi2" using n2 by simp
    have m: "merge_sort overwrites xs out cmp =
           (if r1 \<and> r2 then Inr (False, parallel_merge v1 v2 cmp, map Some (v1 @ v2))
            else if \<not> r1 \<and> \<not> r2 then
              Inr (True, lo1 @ hi2, map Some (parallel_merge lo1 hi2 cmp))
            else if r1 then Inr (False, parallel_merge v1 hi2 cmp, map Some (v1 @ hi2))
            else Inr (False, parallel_merge lo1 v2 cmp, map Some (lo1 @ v2)))"
      using False 1 2 e1 e2 unfolding h_def by (rule merge_sort_rec)
    have n: "length (parallel_merge (if r1 then v1 else lo1) (if r2 then v2 else hi2) cmp) =
               length xs"
      unfolding s1 s2 split[symmetric] by (rule length_std_stable_sort)
    have nl: "length (lo1 @ hi2) = length xs" "length (v1 @ v2) = length xs"
      "length (v1 @ hi2) = length xs" "length (lo1 @ v2) = length xs"
      using n1 n2 len by simp_all
    have concl: "?thesis"
      if "merge_sort overwrites xs out cmp = Inr (r, xs', map Some vs)"
        and "(if r then vs else xs') = std_stable_sort xs cmp"
        and "length xs' = length xs" and "length vs = length xs" for r xs' vs
      using that by blast
    have sorted_halves: "parallel_merge (if r1 then v1 else lo1) (if r2 then v2 else hi2) cmp =
                           std_stable_sort xs cmp"
      unfolding s1 s2 by (rule split[symmetric])
    show ?thesis
    proof (cases r1; cases r2)
      assume r: "r1" "r2"
      show ?thesis
      proof (rule concl)
        show "merge_sort overwrites xs out cmp =
                Inr (False, parallel_merge v1 v2 cmp, map Some (v1 @ v2))"
          using m r by simp
        show "(if False then v1 @ v2 else parallel_merge v1 v2 cmp) = std_stable_sort xs cmp"
          using sorted_halves r by simp
        show "length (parallel_merge v1 v2 cmp) = length xs" using n r by simp
        show "length (v1 @ v2) = length xs" by (rule nl(2))
      qed
    next
      assume r: "r1" "\<not> r2"
      show ?thesis
      proof (rule concl)
        show "merge_sort overwrites xs out cmp =
                Inr (False, parallel_merge v1 hi2 cmp, map Some (v1 @ hi2))"
          using m r by simp
        show "(if False then v1 @ hi2 else parallel_merge v1 hi2 cmp) = std_stable_sort xs cmp"
          using sorted_halves r by simp
        show "length (parallel_merge v1 hi2 cmp) = length xs" using n r by simp
        show "length (v1 @ hi2) = length xs" by (rule nl(3))
      qed
    next
      assume r: "\<not> r1" "r2"
      show ?thesis
      proof (rule concl)
        show "merge_sort overwrites xs out cmp =
                Inr (False, parallel_merge lo1 v2 cmp, map Some (lo1 @ v2))"
          using m r by simp
        show "(if False then lo1 @ v2 else parallel_merge lo1 v2 cmp) = std_stable_sort xs cmp"
          using sorted_halves r by simp
        show "length (parallel_merge lo1 v2 cmp) = length xs" using n r by simp
        show "length (lo1 @ v2) = length xs" by (rule nl(4))
      qed
    next
      assume r: "\<not> r1" "\<not> r2"
      show ?thesis
      proof (rule concl)
        show "merge_sort overwrites xs out cmp =
                Inr (True, lo1 @ hi2, map Some (parallel_merge lo1 hi2 cmp))"
          using m r by simp
        show "(if True then parallel_merge lo1 hi2 cmp else lo1 @ hi2) = std_stable_sort xs cmp"
          using sorted_halves r by simp
        show "length (lo1 @ hi2) = length xs" by (rule nl(1))
        show "length (parallel_merge lo1 hi2 cmp) = length xs" using n r by simp
      qed
    qed
  qed
qed

text \<open>
  With an element type whose assignment reads its destination, \<open>merge_sort\<close> on raw storage
  has no defined result: the first assignment into the buffer is the fault.
\<close>

lemma merge_sort_raw:
  "xs \<noteq> [] \<Longrightarrow> out \<noteq> [] \<Longrightarrow> hd out = None \<Longrightarrow> merge_sort False xs out cmp = Inl Raw_Assign"
proof (induction "length xs" arbitrary: xs out rule: less_induct)
  case less
  define h where "h = length xs div 2"
  show ?case
  proof (cases "h \<le> CILKSTL_PARALLEL_CUTOFF")
    case True
    let ?m = "parallel_merge (std_stable_sort (take h xs) cmp) (std_stable_sort (drop h xs) cmp) cmp"
    have "length ?m = length xs"
      by (simp add: length_parallel_merge length_std_stable_sort)
    then have m: "?m \<noteq> []" using less.prems(1) by auto
    have t: "take (length xs) out \<noteq> []" "hd (take (length xs) out) = None"
      using less.prems by (cases out; cases xs; simp)+
    have "assign_all False (take (length xs) out) ?m = Inl Raw_Assign"
      using m t by (rule assign_all_raw)
    then show ?thesis
      using True by (simp add: merge_sort_base h_def merge_to_buffer_def)
  next
    case False
    then have big: "2 \<le> length xs" by (simp add: h_def CILKSTL_PARALLEL_CUTOFF_def)
    then have h1: "1 \<le> h" by (simp add: h_def)
    have l1: "length (take h xs) < length xs" using big by (simp add: h_def)
    have a: "take h xs \<noteq> []" using h1 less.prems(1) by (cases xs) auto
    have b: "take h out \<noteq> []" "hd (take h out) = None"
      using h1 less.prems(2,3) by (cases out; cases h; simp)+
    have "merge_sort False (take h xs) (take h out) cmp = Inl Raw_Assign"
      using less.hyps[OF l1 a b] .
    then show ?thesis
      using False by (subst merge_sort.simps) (simp add: h_def)
  qed
qed

lemma stable_sort_std_stable_sort:
  assumes "strict_weak_order cmp"
  shows "stable_sort True xs cmp = Inr (std_stable_sort xs cmp)"
proof -
  have l: "length (replicate (length xs) (None :: 'a option)) = length xs" by simp
  obtain r xs' vs where
    "merge_sort True xs (replicate (length xs) None) cmp = Inr (r, xs', map Some vs)"
    and "(if r then vs else xs') = std_stable_sort xs cmp"
    using merge_sort_result[OF assms l, of True] by auto
  then show ?thesis by (cases r) (simp_all add: stable_sort_def read_all_objects)
qed

lemma stable_sort_raw:
  assumes "CILKSTL_PARALLEL_CUTOFF \<le> length xs"
  shows "stable_sort False xs cmp = Inl Raw_Assign"
proof -
  have n: "0 < length xs" using assms unfolding CILKSTL_PARALLEL_CUTOFF_def by arith
  then have "xs \<noteq> []" by auto
  moreover have "replicate (length xs) (None :: 'a option) \<noteq> []" using n by simp
  moreover have "hd (replicate (length xs) (None :: 'a option)) = None" using n by simp
  ultimately have "merge_sort False xs (replicate (length xs) None) cmp = Inl Raw_Assign"
    by (rule merge_sort_raw)
  then show ?thesis using assms by (simp add: stable_sort_def)
qed

text \<open>
  For element types whose assignment only overwrites, \<open>stable_sort\<close> with a successful
  allocation returns the sequence of \<open>std::stable_sort\<close>, which is sorted, a permutation of
  the input, and keeps equivalent elements in input order.
\<close>

lemma stable_sort_overwriting_elements:
  assumes "strict_weak_order cmp"
  shows "stable_sort_malloc True xs (Some ()) cmp = Returned (std_stable_sort xs cmp) \<and>
         sorted_by cmp (std_stable_sort xs cmp) \<and>
         mset (std_stable_sort xs cmp) = mset xs \<and>
         (\<forall>k. filter (equiv_by cmp k) (std_stable_sort xs cmp) = filter (equiv_by cmp k) xs)"
  using assms
  by (simp add: stable_sort_malloc_def stable_sort_std_stable_sort sorted_std_stable_sort
      mset_std_stable_sort stable_std_stable_sort)

subsection \<open>Concrete inputs\<close>

lemma insert_stable_replicate_same:
  "\<not> cmp x x \<Longrightarrow> insert_stable cmp x (replicate n x) = x # replicate n x"
  by (cases n) simp_all

lemma std_stable_sort_replicate:
  "\<not> cmp x x \<Longrightarrow> std_stable_sort (replicate n x) cmp = replicate n x"
  by (induction n) (simp_all add: std_stable_sort_Nil std_stable_sort_Cons insert_stable_replicate_same)

lemma insert_stable_replicate_less:
  "cmp y x \<Longrightarrow> insert_stable cmp x (replicate n y) = replicate n y @ [x]"
  by (induction n) simp_all

lemma std_stable_sort_two_blocks:
  assumes swo: "strict_weak_order cmp" and yx: "cmp y x"
  shows "std_stable_sort (replicate m x @ replicate n y) cmp = replicate n y @ replicate m x"
proof -
  have ir: "\<not> cmp x x" "\<not> cmp y y" using swo by (simp_all add: swo_irrefl)
  have "std_stable_sort (replicate m x @ replicate n y) cmp =
          serial_merge (replicate m x) (replicate n y @ []) cmp"
    using ir by (simp add: std_stable_sort_append[OF swo] std_stable_sort_replicate)
  also have "\<dots> = replicate n y @ serial_merge (replicate m x) [] cmp"
    by (rule serial_merge_right_first) (simp add: yx)
  finally show ?thesis by simp
qed

lemma swo_key_less: "strict_weak_order (\<lambda>a b. fst a < (fst b :: nat))"
  unfolding strict_weak_order_def by auto

lemma two_blocks_halves:
  "take 2000 (replicate 2000 x @ replicate 2000 y) = replicate 2000 x"
  "drop 2000 (replicate 2000 x @ replicate 2000 y) = replicate 2000 y"
  by simp_all

subsection \<open>The claims on stable\_sort\<close>

text \<open>
  Claim C1.  The claim is that for every input sequence and every comparator that is a strict
  weak order, \<open>stable_sort\<close> terminates with \<open>[first, last)\<close> holding the sequence of the serial
  \<open>std::stable_sort\<close>, equivalent elements in input order.  The code breaks it on a range of
  4000 pairs of a number and a string, 2000 pairs \<open>(1, "b")\<close> followed by 2000 pairs
  \<open>(0, "a")\<close>, compared by the number, with a successful allocation: the buffer is raw
  storage, the first merge move-assigns a pair into its first cell, and the assignment of the
  string reads an object that was never made.  The call has no defined result.  On the same
  input without its last pair, 3999 elements, the call takes the serial path and returns the
  stably sorted sequence.
\<close>

theorem stable_sort_raw_storage_fault:
  "stable_sort_malloc False (replicate 2000 (1, ''b'') @ replicate 2000 (0::nat, ''a''))
     (Some ()) (\<lambda>a b. fst a < fst b) = Undefined Raw_Assign \<and>
   stable_sort_malloc False (replicate 2000 (1, ''b'') @ replicate 1999 (0::nat, ''a''))
     (Some ()) (\<lambda>a b. fst a < fst b) =
     Returned (replicate 1999 (0, ''a'') @ replicate 2000 (1, ''b''))"
proof -
  have "CILKSTL_PARALLEL_CUTOFF \<le>
          length (replicate 2000 (1, ''b'') @ replicate 2000 (0::nat, ''a''))"
    by (simp add: CILKSTL_PARALLEL_CUTOFF_def)
  then have "stable_sort False (replicate 2000 (1, ''b'') @ replicate 2000 (0::nat, ''a''))
               (\<lambda>a b. fst a < fst b) = Inl Raw_Assign"
    by (rule stable_sort_raw)
  then have 1: "stable_sort_malloc False
                  (replicate 2000 (1, ''b'') @ replicate 2000 (0::nat, ''a''))
                  (Some ()) (\<lambda>a b. fst a < fst b) = Undefined Raw_Assign"
    by (simp add: stable_sort_malloc_def CILKSTL_PARALLEL_CUTOFF_def)
  have s: "std_stable_sort (replicate 2000 (1, ''b'') @ replicate 1999 (0::nat, ''a''))
             (\<lambda>a b. fst a < fst b) = replicate 1999 (0, ''a'') @ replicate 2000 (1, ''b'')"
    by (rule std_stable_sort_two_blocks[OF swo_key_less]) simp
  have 2: "stable_sort_malloc False
             (replicate 2000 (1, ''b'') @ replicate 1999 (0::nat, ''a''))
             (Some ()) (\<lambda>a b. fst a < fst b) =
           Returned (replicate 1999 (0, ''a'') @ replicate 2000 (1, ''b''))"
    unfolding stable_sort_malloc_def s by (simp add: CILKSTL_PARALLEL_CUTOFF_def)
  from 1 2 show ?thesis by (rule conjI)
qed

text \<open>
  Claim C2.  The claim is that \<open>merge_sort\<close> returns a flag that says where the stably sorted
  input is, the range when false and the buffer when true, and that \<open>stable_sort\<close> moves the
  buffer back exactly when the flag is true, so that the result always ends in the range.
  On the 4000 pairs of claim C1 the code breaks it: with the raw buffer that \<open>stable_sort\<close>
  passes, \<open>merge_sort\<close> returns no flag, the first assignment into the buffer is the fault,
  and so \<open>stable_sort\<close> has nothing to move back.  The flag itself is right: with a buffer
  that holds 4000 objects the same call returns true, leaves the two sorted halves in the
  range and the stably sorted input in the buffer.
\<close>

theorem merge_sort_raw_buffer_fault:
  "merge_sort False (replicate 2000 (1, ''b'') @ replicate 2000 (0::nat, ''a''))
     (replicate 4000 None) (\<lambda>a b. fst a < fst b) = Inl Raw_Assign \<and>
   stable_sort False (replicate 2000 (1, ''b'') @ replicate 2000 (0::nat, ''a''))
     (\<lambda>a b. fst a < fst b) = Inl Raw_Assign \<and>
   merge_sort False (replicate 2000 (1, ''b'') @ replicate 2000 (0::nat, ''a''))
     (map Some (replicate 2000 (1, ''b'') @ replicate 2000 (0, ''a'')))
     (\<lambda>a b. fst a < fst b) =
     Inr (True, replicate 2000 (1, ''b'') @ replicate 2000 (0, ''a''),
          map Some (replicate 2000 (0, ''a'') @ replicate 2000 (1, ''b'')))"
proof -
  have 1: "merge_sort False (replicate 2000 (1, ''b'') @ replicate 2000 (0::nat, ''a''))
             (replicate 4000 None) (\<lambda>a b. fst a < fst b) = Inl Raw_Assign"
    by (rule merge_sort_raw) simp_all
  have "CILKSTL_PARALLEL_CUTOFF \<le>
          length (replicate 2000 (1, ''b'') @ replicate 2000 (0::nat, ''a''))"
    by (simp add: CILKSTL_PARALLEL_CUTOFF_def)
  then have 2: "stable_sort False (replicate 2000 (1, ''b'') @ replicate 2000 (0::nat, ''a''))
                  (\<lambda>a b. fst a < fst b) = Inl Raw_Assign"
    by (rule stable_sort_raw)
  have l: "length (map Some (replicate 2000 (1, ''b'') @ replicate 2000 (0::nat, ''a''))) =
             length (replicate 2000 (1, ''b'') @ replicate 2000 (0::nat, ''a''))"
    by simp
  have o: "False \<or> None \<notin>
             set (map Some (replicate 2000 (1, ''b'') @ replicate 2000 (0::nat, ''a'')))"
    by auto
  have h: "length (replicate 2000 (1, ''b'') @ replicate 2000 (0::nat, ''a'')) div 2 = 2000"
    by simp
  have c: "length (replicate 2000 (1, ''b'') @ replicate 2000 (0::nat, ''a'')) div 2 \<le>
             CILKSTL_PARALLEL_CUTOFF"
    unfolding h by (simp add: CILKSTL_PARALLEL_CUTOFF_def)
  have s: "std_stable_sort (replicate 2000 (1, ''b'') @ replicate 2000 (0::nat, ''a''))
             (\<lambda>a b. fst a < fst b) = replicate 2000 (0, ''a'') @ replicate 2000 (1, ''b'')"
    by (rule std_stable_sort_two_blocks[OF swo_key_less]) simp
  have r: "std_stable_sort (replicate 2000 (1::nat, ''b'')) (\<lambda>a b. fst a < fst b) =
             replicate 2000 (1, ''b'')"
          "std_stable_sort (replicate 2000 (0::nat, ''a'')) (\<lambda>a b. fst a < fst b) =
             replicate 2000 (0, ''a'')"
    by (rule std_stable_sort_replicate, simp)+
  have 3: "merge_sort False (replicate 2000 (1, ''b'') @ replicate 2000 (0::nat, ''a''))
             (map Some (replicate 2000 (1, ''b'') @ replicate 2000 (0, ''a'')))
             (\<lambda>a b. fst a < fst b) =
           Inr (True, replicate 2000 (1, ''b'') @ replicate 2000 (0, ''a''),
                map Some (replicate 2000 (0, ''a'') @ replicate 2000 (1, ''b'')))"
    unfolding merge_sort_base_result[OF swo_key_less l o c] h two_blocks_halves r s
    by (rule refl)
  from 1 2 3 show ?thesis by (intro conjI)
qed

text \<open>
  Claim C8, at a call where the allocation fails.  The range holds 4000 numbers, a 1
  followed by zeros, and \<open>malloc\<close> returns the null pointer.  The claim has the call fail
  with an allocation error and leave the range as it was.  The code reports nothing: it
  sorts the two halves in place, which moves the 1 to the end of the first half, and then
  stores through the null pointer.
\<close>

theorem stable_sort_failed_allocation:
  "stable_sort_malloc True (1 # replicate 3999 0) None (<) =
     Null_Store (replicate 1999 0 @ 1 # replicate 2000 (0::nat)) \<and>
   replicate 1999 0 @ 1 # replicate 2000 (0::nat) \<noteq> 1 # replicate 3999 0"
proof -
  have t: "take 2000 (1 # replicate 3999 (0::nat)) = 1 # replicate 1999 0" by simp
  have d: "drop 2000 (1 # replicate 3999 (0::nat)) = replicate 2000 0" by simp
  have "merge_sort_null (1 # replicate 3999 (0::nat)) (<) =
          std_stable_sort (1 # replicate 1999 0) (<) @ std_stable_sort (replicate 2000 0) (<)"
    by (subst merge_sort_null.simps) (simp add: CILKSTL_PARALLEL_CUTOFF_def)
  also have "\<dots> = (replicate 1999 0 @ [1]) @ replicate 2000 0"
    by (simp add: std_stable_sort_Cons std_stable_sort_replicate insert_stable_replicate_less)
  finally have m: "merge_sort_null (1 # replicate 3999 (0::nat)) (<) =
                     replicate 1999 0 @ 1 # replicate 2000 0"
    by simp
  have 1: "stable_sort_malloc True (1 # replicate 3999 0) None (<) =
             Null_Store (replicate 1999 0 @ 1 # replicate 2000 (0::nat))"
    unfolding stable_sort_malloc_def m by (simp add: CILKSTL_PARALLEL_CUTOFF_def)
  have "(replicate 1999 0 @ 1 # replicate 2000 (0::nat)) ! 0 = 0"
    by (simp add: nth_append)
  then have 2: "replicate 1999 0 @ 1 # replicate 2000 (0::nat) \<noteq> 1 # replicate 3999 0"
    by (metis nth_Cons_0 zero_neq_one)
  from 1 2 show ?thesis by simp
qed

section \<open>Initial pointers of a stride\<close>

lemma strided_init_partition:
  assumes "PARTITION_GS \<le> n" and "offset < PART_SIZE"
  shows "strided_init n (n div PART_SIZE) offset =
           (PART_SIZE, offset,
            if (n div PART_SIZE) * PART_SIZE + offset < n
            then (n div PART_SIZE) * PART_SIZE + offset
            else (n div PART_SIZE - 1) * PART_SIZE + offset)"
proof -
  have q: "64 \<le> n div 64" using assms(1) by (simp add: PARTITION_GS_def)
  have "n div (n div 64) = 64"
  proof (rule div_nat_eqI)
    show "n div 64 * 64 \<le> n" by simp
    have "n < n div 64 * 64 + 64" by presburger
    then show "n < n div 64 * Suc 64" using q by simp
  qed
  then show ?thesis
    by (simp add: strided_init_def PART_SIZE_def Let_def mult.commute)
qed

lemma largest_stride_pos_eq:
  assumes "PARTITION_GS \<le> n" and "offset < PART_SIZE"
  shows "largest_stride_pos (n div PART_SIZE + 1) n offset =
           (if (n div PART_SIZE) * PART_SIZE + offset < n
            then (n div PART_SIZE) * PART_SIZE + offset
            else (n div PART_SIZE - 1) * PART_SIZE + offset)"
proof -
  define q where "q = n div 64"
  define S where "S = (\<lambda>k. k * 64 + offset) ` {k. k < q + 1 \<and> k * 64 + offset < n}"
  have q: "64 \<le> q" using assms(1) by (simp add: PARTITION_GS_def q_def)
  have o: "offset < 64" using assms(2) by (simp add: PART_SIZE_def)
  have qn: "q * 64 \<le> n" by (simp add: q_def)
  have fin: "finite S" by (simp add: S_def)
  have "Max S = (if q * 64 + offset < n then q * 64 + offset else (q - 1) * 64 + offset)"
  proof (cases "q * 64 + offset < n")
    case True
    have "Max S = q * 64 + offset"
    proof (rule Max_eqI[OF fin])
      fix y assume "y \<in> S"
      then obtain k where "k < q + 1" "y = k * 64 + offset" by (auto simp: S_def)
      then show "y \<le> q * 64 + offset" by simp
    next
      show "q * 64 + offset \<in> S" using True by (auto simp: S_def)
    qed
    with True show ?thesis by simp
  next
    case False
    have "Max S = (q - 1) * 64 + offset"
    proof (rule Max_eqI[OF fin])
      fix y assume "y \<in> S"
      then obtain k where k: "k < q + 1" "k * 64 + offset < n" "y = k * 64 + offset"
        by (auto simp: S_def)
      have "k \<noteq> q" using k(2) False by auto
      with k(1) have "k \<le> q - 1" by simp
      then show "y \<le> (q - 1) * 64 + offset" using k(3) by simp
    next
      have "(q - 1) * 64 + offset < q * 64" using q o by (simp add: diff_mult_distrib)
      with qn have "(q - 1) * 64 + offset < n" by simp
      moreover have "q - 1 < q + 1" by simp
      ultimately show "(q - 1) * 64 + offset \<in> S" unfolding S_def by blast
    qed
    with False show ?thesis by simp
  qed
  then show ?thesis
    by (simp add: largest_stride_pos_def PART_SIZE_def S_def q_def)
qed

text \<open>
  Claim C9, as the code has it.  When \<open>strided_partition\<close> is called from \<open>partition\<close>
  (range of at least \<open>PARTITION_GS\<close> elements, \<open>num_parts = range_width div PART_SIZE\<close>,
  stride offset below \<open>PART_SIZE\<close>), the stride is \<open>PART_SIZE\<close>, the start pointer is
  \<open>first + offset\<close>, and the end pointer is the largest position inside the range of the
  form \<open>first + k * PART_SIZE + offset\<close> where \<open>k\<close> ranges up to and including
  \<open>num_parts\<close>.
\<close>

theorem strided_init_largest_in_range:
  assumes "PARTITION_GS \<le> n" and "offset < PART_SIZE"
  shows "strided_init n (n div PART_SIZE) offset =
           (PART_SIZE, offset, largest_stride_pos (n div PART_SIZE + 1) n offset)"
  unfolding strided_init_partition[OF assms] largest_stride_pos_eq[OF assms] by (rule refl)

theorem strided_init_largest_in_range_witness:
  "PARTITION_GS \<le> 4097 \<and> 0 < PART_SIZE \<and>
   strided_init 4097 (4097 div PART_SIZE) 0 =
     (PART_SIZE, 0, largest_stride_pos (4097 div PART_SIZE + 1) 4097 0) \<and>
   largest_stride_pos (4097 div PART_SIZE + 1) 4097 0 = 4096"
proof -
  have h1: "PARTITION_GS \<le> 4097" by (simp add: PARTITION_GS_def)
  have h2: "0 < PART_SIZE" by (simp add: PART_SIZE_def)
  have e: "strided_init 4097 (4097 div PART_SIZE) 0 = (PART_SIZE, 0, 4096)"
    by (simp add: strided_init_def PART_SIZE_def)
  show ?thesis
    using h1 h2 e strided_init_largest_in_range[OF h1 h2] by simp
qed

text \<open>
  Claim C9 as the specification words it (\<open>k < num_parts\<close>) fails: for a range of 4097
  elements and stride offset 0 the code puts the end pointer at position
  \<open>4096 = num_parts * PART_SIZE\<close>, while the largest position with \<open>k < num_parts\<close> is 4032.
\<close>

theorem strided_init_end_counterexample:
  "snd (snd (strided_init 4097 (4097 div PART_SIZE) 0)) = 4096 \<and>
   largest_stride_pos (4097 div PART_SIZE) 4097 0 < 4096"
proof -
  define S where "S = (\<lambda>k::nat. k * 64 + 0) ` {k. k < 64 \<and> k * 64 + 0 < (4097::nat)}"
  have fin: "finite S" by (simp add: S_def)
  have "0 * 64 + 0 \<in> S" unfolding S_def by (rule imageI) simp
  then have ne: "S \<noteq> {}" by blast
  have "Max S \<in> S" using fin ne by (rule Max_in)
  then have "Max S < 4096" by (auto simp: S_def)
  then have "largest_stride_pos (4097 div PART_SIZE) 4097 0 < 4096"
    by (simp add: largest_stride_pos_def PART_SIZE_def S_def)
  moreover have "snd (snd (strided_init 4097 (4097 div PART_SIZE) 0)) = 4096"
    by (simp add: strided_init_def PART_SIZE_def)
  ultimately show ?thesis by simp
qed

section \<open>Partition\<close>

subsection \<open>Positions of a stride\<close>

lemma stride_next:
  assumes "s < e" and "s mod ps = e mod ps"
  shows "s + ps \<le> (e::nat)"
proof -
  have "s \<le> e" using assms(1) by simp
  then have "e mod ps = s mod ps \<longleftrightarrow> ps dvd e - s" by (rule mod_eq_dvd_iff_nat)
  then have "ps dvd e - s" using assms(2) by simp
  moreover have "0 < e - s" using assms(1) by simp
  ultimately have "ps \<le> e - s" by (rule dvd_imp_le)
  then show ?thesis using assms(1) by simp
qed

lemma stride_prev_mod:
  assumes "s < e" and "s mod ps = e mod ps"
  shows "(e - ps) mod ps = e mod (ps::nat)"
proof -
  have "ps \<le> e" using stride_next[OF assms] by simp
  then show ?thesis by (simp add: le_mod_geq)
qed

lemma swap_length [simp]: "length (swap i j xs) = length xs"
  by (simp add: swap_def)

lemma swap_mset: "i < length xs \<Longrightarrow> j < length xs \<Longrightarrow> mset (swap i j xs) = mset xs"
  unfolding swap_def by (simp add: mset_swap)

lemma swap_nth_other: "k \<noteq> i \<Longrightarrow> k \<noteq> j \<Longrightarrow> swap i j xs ! k = xs ! k"
  by (simp add: swap_def)

lemma swap_nth_left: "i < length xs \<Longrightarrow> j < length xs \<Longrightarrow> swap i j xs ! i = xs ! j"
  by (cases "i = j") (simp_all add: swap_def)

lemma swap_nth_right: "i < length xs \<Longrightarrow> j < length xs \<Longrightarrow> swap i j xs ! j = xs ! i"
  by (simp add: swap_def)

subsection \<open>The inner loops\<close>

lemma advance_s_spec:
  assumes "0 < ps" and "s \<le> e" and "s mod ps = e mod ps" and "e < length xs"
  shows "\<exists>s'. advance_s p xs ps s e = Some s' \<and> s \<le> s' \<and> s' \<le> e \<and> s' mod ps = e mod ps \<and>
           (\<forall>i. s \<le> i \<and> i < s' \<and> i mod ps = e mod ps \<longrightarrow> p (xs ! i)) \<and>
           (s' < e \<longrightarrow> \<not> p (xs ! s'))"
  using assms(2,3)
proof (induction "e - s" arbitrary: s rule: less_induct)
  case less
  have sl: "s < length xs" using less.prems(1) assms(4) by simp
  show ?case
  proof (cases "p (xs ! s) \<and> s < e")
    case False
    have "advance_s p xs ps s e = Some s"
      using sl False by (subst advance_s.simps) auto
    then show ?thesis using less.prems False by auto
  next
    case True
    have nx: "s + ps \<le> e" using True less.prems(2) by (simp add: stride_next)
    have md: "(s + ps) mod ps = e mod ps" using less.prems(2) by simp
    have "s < e" using True by simp
    then have "e - (s + ps) < e - s" using assms(1) by arith
    then obtain s' where r: "advance_s p xs ps (s + ps) e = Some s'"
      and b: "s + ps \<le> s'" "s' \<le> e" "s' mod ps = e mod ps"
      and a: "\<forall>i. s + ps \<le> i \<and> i < s' \<and> i mod ps = e mod ps \<longrightarrow> p (xs ! i)"
      and n: "s' < e \<longrightarrow> \<not> p (xs ! s')"
      using less.hyps[OF _ nx md] by blast
    have u: "advance_s p xs ps s e = Some s'"
      using sl True r by (subst advance_s.simps) simp
    have "\<forall>i. s \<le> i \<and> i < s' \<and> i mod ps = e mod ps \<longrightarrow> p (xs ! i)"
    proof (intro allI impI)
      fix i assume i: "s \<le> i \<and> i < s' \<and> i mod ps = e mod ps"
      show "p (xs ! i)"
      proof (cases "i = s")
        case True
        then show ?thesis using \<open>p (xs ! s) \<and> s < e\<close> by simp
      next
        case False
        then have "s < i" using i by simp
        moreover have "s mod ps = i mod ps" using i less.prems(2) by simp
        ultimately have "s + ps \<le> i" by (rule stride_next)
        then show ?thesis using a i by simp
      qed
    qed
    then show ?thesis using u b n by auto
  qed
qed

lemma retreat_e_spec:
  assumes "0 < ps" and "s \<le> e" and "s mod ps = e mod ps" and "e < length xs"
  shows "\<exists>e'. retreat_e p xs ps s e = Some e' \<and> s \<le> e' \<and> e' \<le> e \<and> e' mod ps = s mod ps \<and>
           (\<forall>i. e' < i \<and> i \<le> e \<and> i mod ps = s mod ps \<longrightarrow> \<not> p (xs ! i)) \<and>
           (s < e' \<longrightarrow> p (xs ! e'))"
  using assms(2,3,4)
proof (induction "e - s" arbitrary: e rule: less_induct)
  case less
  show ?case
  proof (cases "\<not> p (xs ! e) \<and> s < e")
    case False
    have "retreat_e p xs ps s e = Some e"
      using less.prems(3) False by (subst retreat_e.simps) auto
    then show ?thesis using less.prems False by auto
  next
    case True
    have nx: "s + ps \<le> e" using True less.prems(2) by (simp add: stride_next)
    have "s < e" using True by simp
    then have "(e - ps) mod ps = e mod ps" using less.prems(2) by (rule stride_prev_mod)
    then have md: "s mod ps = (e - ps) mod ps" using less.prems(2) by simp
    have "(e - ps) - s < e - s" using assms(1) nx by arith
    moreover have "s \<le> e - ps" using nx by simp
    moreover have "e - ps < length xs" using less.prems(3) by simp
    ultimately obtain e' where r: "retreat_e p xs ps s (e - ps) = Some e'"
      and b: "s \<le> e'" "e' \<le> e - ps" "e' mod ps = s mod ps"
      and a: "\<forall>i. e' < i \<and> i \<le> e - ps \<and> i mod ps = s mod ps \<longrightarrow> \<not> p (xs ! i)"
      and n: "s < e' \<longrightarrow> p (xs ! e')"
      using less.hyps[OF _ _ md] by blast
    have u: "retreat_e p xs ps s e = Some e'"
      using less.prems(3) True nx r by (subst retreat_e.simps) simp
    have "\<forall>i. e' < i \<and> i \<le> e \<and> i mod ps = s mod ps \<longrightarrow> \<not> p (xs ! i)"
    proof (intro allI impI)
      fix i assume i: "e' < i \<and> i \<le> e \<and> i mod ps = s mod ps"
      show "\<not> p (xs ! i)"
      proof (cases "i = e")
        case True
        then show ?thesis using \<open>\<not> p (xs ! e) \<and> s < e\<close> by simp
      next
        case False
        then have "i < e" using i by simp
        moreover have "i mod ps = e mod ps" using i less.prems(2) by simp
        ultimately have "i + ps \<le> e" by (rule stride_next)
        then show ?thesis using a i by simp
      qed
    qed
    then show ?thesis using u b n by auto
  qed
qed

subsection \<open>The loop of a stride\<close>

text \<open>
  The loop keeps the elements of the stride before \<open>s\<close> satisfying the predicate and those
  behind \<open>e\<close> not satisfying it.  Its first iteration may swap a pair that is in place and
  swap it back in the second one, so the measure counts twice the distance and one more
  when the pair at \<open>s\<close> and \<open>e\<close> is not out of place.
\<close>

lemma strided_loop_spec:
  assumes ps: "0 < ps"
  shows "s \<le> e \<Longrightarrow> s mod ps = r \<Longrightarrow> e mod ps = r \<Longrightarrow> e < length xs \<Longrightarrow>
     (\<forall>i<s. i mod ps = r \<longrightarrow> p (xs ! i)) \<Longrightarrow>
     (\<forall>i. e < i \<and> i < length xs \<and> i mod ps = r \<longrightarrow> \<not> p (xs ! i)) \<Longrightarrow>
     \<exists>ys c. strided_loop p ps xs s e = Some (ys, c) \<and> length ys = length xs \<and>
        mset ys = mset xs \<and>
        (\<forall>i<length xs. i mod ps \<noteq> r \<longrightarrow> ys ! i = xs ! i) \<and> c mod ps = r \<and> c < length xs \<and>
        (\<forall>i<c. i mod ps = r \<longrightarrow> p (ys ! i)) \<and>
        (\<forall>i. c < i \<and> i < length xs \<and> i mod ps = r \<longrightarrow> \<not> p (ys ! i))"
proof (induction "2 * (e - s) + (if \<not> p (xs ! s) \<and> p (xs ! e) then 0 else (1::nat))"
        arbitrary: xs s e rule: less_induct)
  case less
  note se = less.prems(1) and sr = less.prems(2) and er = less.prems(3) and el = less.prems(4)
    and left = less.prems(5) and right = less.prems(6)
  show ?case
  proof (cases "s < e")
    case False
    then have eq: "e = s" using se by simp
    have "strided_loop p ps xs s e = Some (xs, s)"
      using False by (subst strided_loop.simps) simp
    then show ?thesis using eq sr el left right by auto
  next
    case True
    define xs' where "xs' = swap s e xs"
    have sl: "s < length xs" using True el by simp
    have len: "length xs' = length xs" by (simp add: xs'_def)
    have ms: "mset xs' = mset xs" unfolding xs'_def using sl el by (rule swap_mset)
    have at_s: "xs' ! s = xs ! e" unfolding xs'_def using sl el by (rule swap_nth_left)
    have at_e: "xs' ! e = xs ! s" unfolding xs'_def using sl el by (rule swap_nth_right)
    have other: "\<And>k. k \<noteq> s \<Longrightarrow> k \<noteq> e \<Longrightarrow> xs' ! k = xs ! k"
      unfolding xs'_def by (rule swap_nth_other)
    have el': "e < length xs'" using el len by simp
    have sm: "s mod ps = e mod ps" using sr er by simp
    obtain s' where adv: "advance_s p xs' ps s e = Some s'"
      and s'1: "s \<le> s'" and s'2: "s' \<le> e" and s'r: "s' mod ps = e mod ps"
      and s'a: "\<forall>i. s \<le> i \<and> i < s' \<and> i mod ps = e mod ps \<longrightarrow> p (xs' ! i)"
      and s'n: "s' < e \<longrightarrow> \<not> p (xs' ! s')"
      using advance_s_spec[OF ps se sm el', of p] by blast
    obtain e' where ret: "retreat_e p xs' ps s' e = Some e'"
      and e'1: "s' \<le> e'" and e'2: "e' \<le> e" and e'r: "e' mod ps = s' mod ps"
      and e'a: "\<forall>i. e' < i \<and> i \<le> e \<and> i mod ps = s' mod ps \<longrightarrow> \<not> p (xs' ! i)"
      and e'n: "s' < e' \<longrightarrow> p (xs' ! e')"
      using retreat_e_spec[OF ps s'2 s'r el', of p] by blast
    have unfold: "strided_loop p ps xs s e = strided_loop p ps xs' s' e'"
      using True el adv ret by (subst strided_loop.simps) (simp add: xs'_def)
    have measure: "2 * (e' - s') + (if \<not> p (xs' ! s') \<and> p (xs' ! e') then 0 else (1::nat))
                     < 2 * (e - s) + (if \<not> p (xs ! s) \<and> p (xs ! e) then 0 else 1)"
    proof (cases "s' < e'")
      case False
      then have "e' - s' = 0" by simp
      moreover have "2 \<le> 2 * (e - s)" using True by simp
      ultimately show ?thesis using True by auto
    next
      case lt: True
      then have good: "\<not> p (xs' ! s')" "p (xs' ! e')" using s'n e'n e'2 by auto
      then have c1: "(if \<not> p (xs' ! s') \<and> p (xs' ! e') then 0 else (1::nat)) = 0" by simp
      show ?thesis
      proof (cases "\<not> p (xs ! s) \<and> p (xs ! e)")
        case False
        then have c2: "(if \<not> p (xs ! s) \<and> p (xs ! e) then 0 else (1::nat)) = 1" by auto
        have "e' - s' \<le> e - s" using s'1 e'2 by arith
        then show ?thesis unfolding c1 c2 by arith
      next
        case True
        then have c2: "(if \<not> p (xs ! s) \<and> p (xs ! e) then 0 else (1::nat)) = 0" by auto
        have "p (xs' ! s)" using True at_s by simp
        then have "s' \<noteq> s" using good(1) by auto
        then have "s < s'" using s'1 by simp
        then have "e' - s' < e - s" using e'2 lt by arith
        then show ?thesis unfolding c1 c2 by arith
      qed
    qed
    have left': "\<forall>i<s'. i mod ps = r \<longrightarrow> p (xs' ! i)"
    proof (intro allI impI)
      fix i assume i: "i < s'" "i mod ps = r"
      show "p (xs' ! i)"
      proof (cases "i < s")
        case True
        then have "xs' ! i = xs ! i" using se by (intro other) auto
        then show ?thesis using left True i(2) by simp
      next
        case False
        then show ?thesis using s'a i er by simp
      qed
    qed
    have right': "\<forall>i. e' < i \<and> i < length xs' \<and> i mod ps = r \<longrightarrow> \<not> p (xs' ! i)"
    proof (intro allI impI)
      fix i assume i: "e' < i \<and> i < length xs' \<and> i mod ps = r"
      show "\<not> p (xs' ! i)"
      proof (cases "e < i")
        case True
        then have "xs' ! i = xs ! i" using se by (intro other) auto
        then show ?thesis using right True i len by simp
      next
        case False
        then show ?thesis using e'a i s'r er by simp
      qed
    qed
    have s'm: "s' mod ps = r" using s'r er by simp
    have e'm: "e' mod ps = r" using e'r s'm by simp
    have e'l: "e' < length xs'" using e'2 el' by simp
    obtain ys c where res: "strided_loop p ps xs' s' e' = Some (ys, c)"
      and 1: "length ys = length xs'" and 2: "mset ys = mset xs'"
      and 3: "\<forall>i<length xs'. i mod ps \<noteq> r \<longrightarrow> ys ! i = xs' ! i"
      and 4: "c mod ps = r" "c < length xs'"
      and 5: "\<forall>i<c. i mod ps = r \<longrightarrow> p (ys ! i)"
      and 6: "\<forall>i. c < i \<and> i < length xs' \<and> i mod ps = r \<longrightarrow> \<not> p (ys ! i)"
      using less.hyps[OF measure e'1 s'm e'm e'l left' right'] by blast
    have frame: "\<forall>i<length xs. i mod ps \<noteq> r \<longrightarrow> ys ! i = xs ! i"
    proof (intro allI impI)
      fix i assume i: "i < length xs" "i mod ps \<noteq> r"
      then have "i \<noteq> s" "i \<noteq> e" using sr er by auto
      then have "xs' ! i = xs ! i" by (rule other)
      then show "ys ! i = xs ! i" using 3 i len by simp
    qed
    show ?thesis
      unfolding unfold using res 1 2 4 5 6 frame len ms by simp
  qed
qed

subsection \<open>One stride, and all strides\<close>

lemma stride_end_facts:
  assumes "PARTITION_GS \<le> n" and "offset < PART_SIZE"
  defines "e0 \<equiv> (if (n div PART_SIZE) * PART_SIZE + offset < n
                  then (n div PART_SIZE) * PART_SIZE + offset
                  else (n div PART_SIZE - 1) * PART_SIZE + offset)"
  shows "e0 mod PART_SIZE = offset" and "offset \<le> e0" and "e0 < n" and "n \<le> e0 + PART_SIZE"
proof -
  define q where "q = n div 64"
  have q: "64 \<le> q" using assms(1) by (simp add: PARTITION_GS_def q_def)
  have o: "offset < 64" using assms(2) by (simp add: PART_SIZE_def)
  have lo: "q * 64 \<le> n" by (simp add: q_def)
  have hi: "n < q * 64 + 64" unfolding q_def by presburger
  have e0: "e0 = (if q * 64 + offset < n then q * 64 + offset else (q - 1) * 64 + offset)"
    by (simp add: e0_def PART_SIZE_def q_def)
  have m1: "(q * 64 + offset) mod 64 = offset" using o by simp
  have m2: "((q - 1) * 64 + offset) mod 64 = offset" using o by simp
  show "e0 mod PART_SIZE = offset"
  proof (cases "q * 64 + offset < n")
    case True
    then show ?thesis unfolding e0 PART_SIZE_def using m1 by simp
  next
    case False
    then show ?thesis unfolding e0 PART_SIZE_def using m2 by simp
  qed
  show "offset \<le> e0" unfolding e0 by simp
  show "e0 < n"
  proof (cases "q * 64 + offset < n")
    case True
    then show ?thesis unfolding e0 by simp
  next
    case False
    have "(q - 1) * 64 + offset < n" using lo o q by arith
    then show ?thesis unfolding e0 using False by simp
  qed
  show "n \<le> e0 + PART_SIZE"
  proof (cases "q * 64 + offset < n")
    case True
    have "n \<le> q * 64 + offset + 64" using hi by arith
    then show ?thesis unfolding e0 PART_SIZE_def using True by simp
  next
    case False
    have "n \<le> (q - 1) * 64 + offset + 64" using False q by arith
    then show ?thesis unfolding e0 PART_SIZE_def using False by simp
  qed
qed

lemma strided_partition_spec:
  assumes gs: "PARTITION_GS \<le> length xs" and off: "offset < PART_SIZE"
  shows "\<exists>ys c. strided_loop p PART_SIZE xs offset
                  (snd (snd (strided_init (length xs) (length xs div PART_SIZE) offset))) =
                Some (ys, c) \<and>
           c < length ys \<and>
           strided_partition xs p (length xs div PART_SIZE) offset =
             Some (ys, if p (ys ! c) then c + 1 else c) \<and>
           length ys = length xs \<and> mset ys = mset xs \<and>
           (\<forall>i<length xs. i mod PART_SIZE \<noteq> offset \<longrightarrow> ys ! i = xs ! i) \<and>
           (\<forall>i<length xs. i mod PART_SIZE = offset \<longrightarrow>
              (p (ys ! i) \<longleftrightarrow> i < (if p (ys ! c) then c + 1 else c))) \<and>
           (if p (ys ! c) then c + 1 else c) \<le> length xs"
proof -
  define n where "n = length xs"
  define e0 where "e0 = (if (n div PART_SIZE) * PART_SIZE + offset < n
                  then (n div PART_SIZE) * PART_SIZE + offset
                  else (n div PART_SIZE - 1) * PART_SIZE + offset)"
  have init: "strided_init n (n div PART_SIZE) offset = (PART_SIZE, offset, e0)"
    unfolding e0_def using gs off unfolding n_def by (rule strided_init_partition)
  have ps: "0 < PART_SIZE" by (simp add: PART_SIZE_def)
  have np: "n div PART_SIZE \<noteq> 0" using gs by (simp add: n_def PART_SIZE_def PARTITION_GS_def)
  note F = stride_end_facts[OF gs off]
  have e0m: "e0 mod PART_SIZE = offset" unfolding e0_def n_def by (rule F(1))
  have e0o: "offset \<le> e0" unfolding e0_def n_def by (rule F(2))
  have e0n: "e0 < length xs" unfolding e0_def n_def by (rule F(3))
  have e0l: "length xs \<le> e0 + PART_SIZE" unfolding e0_def n_def by (rule F(4))
  have om: "offset mod PART_SIZE = offset" using off by simp
  have left: "\<forall>i<offset. i mod PART_SIZE = offset \<longrightarrow> p (xs ! i)"
    using off by auto
  have right: "\<forall>i. e0 < i \<and> i < length xs \<and> i mod PART_SIZE = offset \<longrightarrow> \<not> p (xs ! i)"
  proof (intro allI impI)
    fix i assume i: "e0 < i \<and> i < length xs \<and> i mod PART_SIZE = offset"
    then have "e0 + PART_SIZE \<le> i" using e0m by (intro stride_next) auto
    then show "\<not> p (xs ! i)" using i e0l by simp
  qed
  obtain ys c where loop: "strided_loop p PART_SIZE xs offset e0 = Some (ys, c)"
    and 1: "length ys = length xs" and 2: "mset ys = mset xs"
    and 3: "\<forall>i<length xs. i mod PART_SIZE \<noteq> offset \<longrightarrow> ys ! i = xs ! i"
    and 4: "c mod PART_SIZE = offset" "c < length xs"
    and 5: "\<forall>i<c. i mod PART_SIZE = offset \<longrightarrow> p (ys ! i)"
    and 6: "\<forall>i. c < i \<and> i < length xs \<and> i mod PART_SIZE = offset \<longrightarrow> \<not> p (ys ! i)"
    using strided_loop_spec[OF ps e0o om e0m e0n left right] by blast
  define cut where "cut = (if p (ys ! c) then c + 1 else c)"
  have sp: "strided_partition xs p (length xs div PART_SIZE) offset = Some (ys, cut)"
    using np init loop 4(2) 1 by (simp add: strided_partition_def n_def cut_def)
  have cls: "\<forall>i<length xs. i mod PART_SIZE = offset \<longrightarrow> (p (ys ! i) \<longleftrightarrow> i < cut)"
  proof (intro allI impI)
    fix i assume i: "i < length xs" "i mod PART_SIZE = offset"
    consider "i < c" | "i = c" | "c < i" by arith
    then show "p (ys ! i) \<longleftrightarrow> i < cut"
    proof cases
      case 1
      then show ?thesis using 5 i by (simp add: cut_def)
    next
      case 2
      then show ?thesis by (simp add: cut_def)
    next
      case 3
      then show ?thesis using 6 i by (simp add: cut_def)
    qed
  qed
  have "cut \<le> length xs" using 4(2) by (simp add: cut_def)
  then show ?thesis
    using loop sp 1 2 3 4(2) cls init unfolding cut_def n_def by auto
qed

lemma spawn_strides_spec:
  assumes gs: "PARTITION_GS \<le> length xs" and k: "k \<le> PART_SIZE"
  shows "\<exists>ys results. spawn_strides xs p (length xs div PART_SIZE) k = Some (ys, results) \<and>
           length ys = length xs \<and> mset ys = mset xs \<and> length results = k \<and>
           (\<forall>i<length xs. k \<le> i mod PART_SIZE \<longrightarrow> ys ! i = xs ! i) \<and>
           (\<forall>j<k. results ! j \<le> length xs \<and>
              (\<forall>i<length xs. i mod PART_SIZE = j \<longrightarrow> (p (ys ! i) \<longleftrightarrow> i < results ! j)))"
  using k
proof (induction k)
  case 0
  show ?case by simp
next
  case (Suc k)
  then have kl: "k < PART_SIZE" by simp
  obtain ys results where
    run: "spawn_strides xs p (length xs div PART_SIZE) k = Some (ys, results)"
    and 1: "length ys = length xs" and 2: "mset ys = mset xs" and 3: "length results = k"
    and 4: "\<forall>i<length xs. k \<le> i mod PART_SIZE \<longrightarrow> ys ! i = xs ! i"
    and 5: "\<forall>j<k. results ! j \<le> length xs \<and>
              (\<forall>i<length xs. i mod PART_SIZE = j \<longrightarrow> (p (ys ! i) \<longleftrightarrow> i < results ! j))"
    using Suc.IH kl by auto
  have gs': "PARTITION_GS \<le> length ys" using gs 1 by simp
  obtain zs c where
    sp: "strided_partition ys p (length ys div PART_SIZE) k =
           Some (zs, if p (zs ! c) then c + 1 else c)"
    and a: "length zs = length ys" and b: "mset zs = mset ys"
    and f: "\<forall>i<length ys. i mod PART_SIZE \<noteq> k \<longrightarrow> zs ! i = ys ! i"
    and g: "\<forall>i<length ys. i mod PART_SIZE = k \<longrightarrow>
              (p (zs ! i) \<longleftrightarrow> i < (if p (zs ! c) then c + 1 else c))"
    and h: "(if p (zs ! c) then c + 1 else c) \<le> length ys"
    using strided_partition_spec[OF gs' kl, of p] by blast
  define cut where "cut = (if p (zs ! c) then c + 1 else c)"
  have res: "spawn_strides xs p (length xs div PART_SIZE) (Suc k) = Some (zs, results @ [cut])"
    using run sp 1 by (simp add: cut_def)
  have frame: "\<forall>i<length xs. Suc k \<le> i mod PART_SIZE \<longrightarrow> zs ! i = xs ! i"
    using f 4 1 by auto
  have cuts: "\<forall>j<Suc k. (results @ [cut]) ! j \<le> length xs \<and>
              (\<forall>i<length xs. i mod PART_SIZE = j \<longrightarrow>
                 (p (zs ! i) \<longleftrightarrow> i < (results @ [cut]) ! j))"
  proof (intro allI impI)
    fix j assume j: "j < Suc k"
    show "(results @ [cut]) ! j \<le> length xs \<and>
              (\<forall>i<length xs. i mod PART_SIZE = j \<longrightarrow>
                 (p (zs ! i) \<longleftrightarrow> i < (results @ [cut]) ! j))"
    proof (cases "j = k")
      case True
      have "(results @ [cut]) ! length results = cut" by (rule nth_append_length)
      then have "(results @ [cut]) ! j = cut" using 3 True by simp
      then show ?thesis using g h 1 True by (simp add: cut_def)
    next
      case False
      then have jk: "j < k" using j by simp
      then have e: "(results @ [cut]) ! j = results ! j" using 3 by (simp add: nth_append)
      have "\<forall>i<length xs. i mod PART_SIZE = j \<longrightarrow> zs ! i = ys ! i"
        using f 1 jk by auto
      then show ?thesis using 5 jk e by simp
    qed
  qed
  show ?case using res a b 1 2 3 frame cuts by simp
qed

lemma spawn_strides_cuts:
  assumes gs: "PARTITION_GS \<le> length xs"
  shows "\<exists>ys cuts. spawn_strides xs p (length xs div PART_SIZE) PART_SIZE = Some (ys, cuts) \<and>
           length cuts = PART_SIZE \<and> length ys = length xs \<and> mset ys = mset xs \<and>
           Min (set cuts) \<le> Max (set cuts) \<and> Max (set cuts) \<le> length xs \<and>
           (\<forall>i<Min (set cuts). p (ys ! i)) \<and>
           (\<forall>i. Max (set cuts) \<le> i \<and> i < length ys \<longrightarrow> \<not> p (ys ! i))"
proof -
  obtain ys cuts where
    run: "spawn_strides xs p (length xs div PART_SIZE) PART_SIZE = Some (ys, cuts)"
    and 1: "length ys = length xs" and 2: "mset ys = mset xs" and 3: "length cuts = PART_SIZE"
    and 5: "\<forall>j<PART_SIZE. cuts ! j \<le> length xs \<and>
              (\<forall>i<length xs. i mod PART_SIZE = j \<longrightarrow> (p (ys ! i) \<longleftrightarrow> i < cuts ! j))"
    using spawn_strides_spec[OF gs order_refl, of p] by blast
  have ps: "0 < PART_SIZE" by (simp add: PART_SIZE_def)
  have fin: "finite (set cuts)" by simp
  have ne: "set cuts \<noteq> {}" using 3 ps by auto
  have mem: "\<And>j. j < PART_SIZE \<Longrightarrow> cuts ! j \<in> set cuts" using 3 by simp
  have lo: "\<And>j. j < PART_SIZE \<Longrightarrow> Min (set cuts) \<le> cuts ! j"
    using mem fin by (simp add: Min_le)
  have hi: "\<And>j. j < PART_SIZE \<Longrightarrow> cuts ! j \<le> Max (set cuts)"
    using mem fin by (simp add: Max_ge)
  have minmax: "Min (set cuts) \<le> Max (set cuts)"
    using lo[OF ps] hi[OF ps] by (rule order_trans)
  have "Max (set cuts) \<in> set cuts" using fin ne by (rule Max_in)
  then obtain j where "j < length cuts" "cuts ! j = Max (set cuts)"
    by (auto simp: in_set_conv_nth)
  then have maxle: "Max (set cuts) \<le> length xs" using 5 3 by metis
  have left: "\<forall>i<Min (set cuts). p (ys ! i)"
  proof (intro allI impI)
    fix i assume i: "i < Min (set cuts)"
    have j: "i mod PART_SIZE < PART_SIZE" using ps by simp
    have "i < cuts ! (i mod PART_SIZE)" using i lo[OF j] by simp
    moreover have "i < length xs" using i minmax maxle by simp
    ultimately show "p (ys ! i)" using 5 j by blast
  qed
  have right: "\<forall>i. Max (set cuts) \<le> i \<and> i < length ys \<longrightarrow> \<not> p (ys ! i)"
  proof (intro allI impI)
    fix i assume i: "Max (set cuts) \<le> i \<and> i < length ys"
    have j: "i mod PART_SIZE < PART_SIZE" using ps by simp
    have "\<not> i < cuts ! (i mod PART_SIZE)" using i hi[OF j] by simp
    moreover have "i < length xs" using i 1 by simp
    ultimately show "\<not> p (ys ! i)" using 5 j by blast
  qed
  show ?thesis using run 1 2 3 minmax maxle left right by blast
qed

lemma std_partition_meets_spec: "std_partition_spec std_partition"
proof -
  have "mset (filter p xs @ filter (\<lambda>x. \<not> p x) xs) = mset xs" for p and xs :: "'a list"
    by simp
  moreover have "p ((filter p xs @ filter (\<lambda>x. \<not> p x) xs) ! i) \<longleftrightarrow> i < length (filter p xs)"
    if "i < length (filter p xs @ filter (\<lambda>x. \<not> p x) xs)" for p i and xs :: "'a list"
  proof (cases "i < length (filter p xs)")
    case True
    then have "filter p xs ! i \<in> set (filter p xs)" by (rule nth_mem)
    then show ?thesis using True by (simp add: nth_append)
  next
    case False
    then have "i - length (filter p xs) < length (filter (\<lambda>x. \<not> p x) xs)" using that by simp
    then have "filter (\<lambda>x. \<not> p x) xs ! (i - length (filter p xs)) \<in> set (filter (\<lambda>x. \<not> p x) xs)"
      by (rule nth_mem)
    then show ?thesis using False by (simp add: nth_append)
  qed
  ultimately show ?thesis
    unfolding std_partition_spec_def std_partition_def by (simp del: mset_filter mset_append)
qed

lemma partition_cilk_spec:
  assumes part: "std_partition_spec part"
  shows "\<exists>ys mid. partition_cilk part xs p = Some (ys, mid) \<and> length ys = length xs \<and>
           mset ys = mset xs \<and> mid \<le> length ys \<and> (\<forall>i<mid. p (ys ! i)) \<and>
           (\<forall>i. mid \<le> i \<and> i < length ys \<longrightarrow> \<not> p (ys ! i))"
proof (cases "length xs < PARTITION_GS")
  case True
  obtain ys m where r: "part xs p = (ys, m)" by (cases "part xs p")
  then have c: "mset ys = mset xs" "m \<le> length ys" "\<forall>i<length ys. p (ys ! i) \<longleftrightarrow> i < m"
    using part[unfolded std_partition_spec_def, rule_format, of xs p] by auto
  have "length ys = length xs" using c(1) by (rule mset_eq_length)
  moreover have "partition_cilk part xs p = Some (ys, m)"
    using True r by (simp add: partition_cilk_def)
  ultimately show ?thesis using c by auto
next
  case False
  then have gs: "PARTITION_GS \<le> length xs" by simp
  obtain ys cuts where
    run: "spawn_strides xs p (length xs div PART_SIZE) PART_SIZE = Some (ys, cuts)"
    and 1: "length ys = length xs" and 2: "mset ys = mset xs"
    and lr: "Min (set cuts) \<le> Max (set cuts)" and rn: "Max (set cuts) \<le> length xs"
    and left: "\<forall>i<Min (set cuts). p (ys ! i)"
    and right: "\<forall>i. Max (set cuts) \<le> i \<and> i < length ys \<longrightarrow> \<not> p (ys ! i)"
    using spawn_strides_cuts[OF gs, of p] by blast
  define L where "L = Min (set cuts)"
  define R where "R = Max (set cuts)"
  define middle where "middle = take (R - L) (drop L ys)"
  obtain zs m where r: "part middle p = (zs, m)" by (cases "part middle p")
  then have c: "mset zs = mset middle" "m \<le> length zs" "\<forall>i<length zs. p (zs ! i) \<longleftrightarrow> i < m"
    using part[unfolded std_partition_spec_def, rule_format, of middle p] by auto
  have lm: "length middle = R - L" using lr rn 1 by (simp add: middle_def L_def R_def)
  have lz: "length zs = R - L" using c(1) lm by (metis mset_eq_length)
  have LR: "L \<le> R" "R \<le> length ys" using lr rn 1 by (simp_all add: L_def R_def)
  have dec: "ys = take L ys @ middle @ drop R ys"
  proof -
    have a: "drop L ys = take (R - L) (drop L ys) @ drop (R - L) (drop L ys)"
      by (rule append_take_drop_id[symmetric])
    have b: "drop (R - L) (drop L ys) = drop R ys" using LR(1) by simp
    have "drop L ys = middle @ drop R ys" unfolding middle_def using a b by simp
    then have "take L ys @ drop L ys = take L ys @ middle @ drop R ys" by simp
    then show ?thesis by simp
  qed
  define pre where "pre = take L ys"
  define res where "res = pre @ zs @ drop R ys"
  have out: "partition_cilk part xs p = Some (res, L + m)"
    using False run r
    by (simp add: partition_cilk_def Let_def res_def pre_def middle_def L_def R_def)
  have "mset res = mset (take L ys) + mset middle + mset (drop R ys)"
    by (simp add: res_def pre_def c(1))
  also have "\<dots> = mset (take L ys @ middle @ drop R ys)" by simp
  also have "\<dots> = mset ys" using dec by simp
  finally have ms: "mset res = mset xs" using 2 by simp
  have lres: "length res = length xs" using ms by (rule mset_eq_length)
  have lt: "length pre = L" using LR by (simp add: pre_def)
  have pn: "\<And>i. i < L \<Longrightarrow> pre ! i = ys ! i" by (simp add: pre_def)
  have before: "\<forall>i<L + m. p (res ! i)"
  proof (intro allI impI)
    fix i assume i: "i < L + m"
    show "p (res ! i)"
    proof (cases "i < L")
      case True
      then have "res ! i = ys ! i" using lt pn by (simp add: res_def nth_append)
      then show ?thesis using left True by (simp add: L_def)
    next
      case False
      then have k: "i - L < m" using i by simp
      then have "i - L < length zs" using c(2) by simp
      then have "res ! i = zs ! (i - L)" using False lt by (simp add: res_def nth_append)
      then show ?thesis using c(3) k c(2) by simp
    qed
  qed
  have after: "\<forall>i. L + m \<le> i \<and> i < length res \<longrightarrow> \<not> p (res ! i)"
  proof (intro allI impI)
    fix i assume i: "L + m \<le> i \<and> i < length res"
    show "\<not> p (res ! i)"
    proof (cases "i < R")
      case True
      then have k: "i - L < length zs" "\<not> i - L < m" "\<not> i < L" using i lz by auto
      then have "res ! i = zs ! (i - L)" using lt by (simp add: res_def nth_append)
      then show ?thesis using c(3) k by simp
    next
      case False
      have iL: "\<not> i < length pre" using False LR lt by simp
      have iz: "\<not> i - L < length zs" using False LR lz by simp
      have "res ! i = (zs @ drop R ys) ! (i - L)"
        unfolding res_def using iL lt by (simp add: nth_append)
      also have "\<dots> = drop R ys ! (i - L - length zs)"
        using iz by (simp add: nth_append)
      also have "i - L - length zs = i - R" using False LR lz by simp
      also have "drop R ys ! (i - R) = ys ! i" using False LR by simp
      finally show ?thesis using right False i lres 1 by (simp add: R_def)
    qed
  qed
  have "L + m \<le> length res" using c(2) lz LR lres 1 by simp
  then show ?thesis using out lres ms before after by blast
qed

lemma zeros_then_ones:
  assumes ms: "mset ys = mset (replicate a (1::nat) @ replicate b 0)"
    and mid: "mid \<le> length ys"
    and z: "\<forall>i<mid. ys ! i = 0"
    and nz: "\<forall>i. mid \<le> i \<and> i < length ys \<longrightarrow> ys ! i \<noteq> 0"
  shows "mid = b \<and> ys = replicate b 0 @ replicate a 1"
proof -
  have len: "length ys = a + b" using mset_eq_length[OF ms] by simp
  have "set ys = set (replicate a (1::nat) @ replicate b 0)" using ms by (rule mset_eq_setD)
  then have vals: "\<And>y. y \<in> set ys \<Longrightarrow> y = 0 \<or> y = 1" by (auto split: if_splits)
  have t: "take mid ys = replicate mid 0"
  proof (rule replicate_eqI)
    show "length (take mid ys) = mid" using mid by simp
    fix y assume "y \<in> set (take mid ys)"
    then obtain i where "i < mid" "y = ys ! i" using mid by (auto simp: in_set_conv_nth)
    then show "y = 0" using z by simp
  qed
  have d: "drop mid ys = replicate (length ys - mid) 1"
  proof (rule replicate_eqI)
    show "length (drop mid ys) = length ys - mid" by simp
    fix y assume y: "y \<in> set (drop mid ys)"
    then obtain i where "i < length ys - mid" "y = ys ! (mid + i)"
      using mid by (auto simp: in_set_conv_nth)
    then have "y \<noteq> 0" using nz by simp
    moreover have "y \<in> set ys" using y by (rule in_set_dropD)
    ultimately show "y = 1" using vals by blast
  qed
  have ys: "ys = replicate mid 0 @ replicate (length ys - mid) 1"
    using append_take_drop_id[of mid ys] t d by simp
  have "count (mset ys) 0 = b" unfolding ms by simp
  moreover have "count (mset ys) 0 = mid" by (subst ys) simp
  ultimately have "mid = b" by simp
  then show ?thesis using ys len by simp
qed

subsection \<open>The claims on partition\<close>

text \<open>
  Claim C3.  With any implementation of \<open>std::partition\<close> that meets the standard, and for
  every range and predicate, \<open>partition\<close> returns; the range it leaves is a permutation of the
  input; every element before the returned position \<open>mid\<close> satisfies the predicate and every
  element from \<open>mid\<close> on does not, so \<open>mid\<close> is the first position whose element does not
  satisfy it (\<open>last\<close> when all do).
\<close>

theorem partition_cilk_partitions:
  assumes "std_partition_spec part"
  shows "\<exists>ys mid. partition_cilk part xs p = Some (ys, mid) \<and> length ys = length xs \<and>
           mset ys = mset xs \<and> mid \<le> length ys \<and> (\<forall>i<mid. p (ys ! i)) \<and>
           (\<forall>i. mid \<le> i \<and> i < length ys \<longrightarrow> \<not> p (ys ! i))"
  using assms by (rule partition_cilk_spec)

theorem partition_cilk_partitions_witness:
  "std_partition_spec (std_partition :: nat list \<Rightarrow> (nat \<Rightarrow> bool) \<Rightarrow> nat list \<times> nat) \<and>
   partition_cilk std_partition (replicate 4096 1 @ replicate 4096 0) (\<lambda>x. x = 0) =
     Some (replicate 4096 0 @ replicate 4096 (1::nat), 4096)"
proof -
  obtain ys mid where
    r: "partition_cilk std_partition (replicate 4096 1 @ replicate 4096 0) (\<lambda>x. x = 0) =
          Some (ys, mid)"
    and ms: "mset ys = mset (replicate 4096 (1::nat) @ replicate 4096 0)"
    and mid: "mid \<le> length ys"
    and z: "\<forall>i<mid. ys ! i = 0"
    and nz: "\<forall>i. mid \<le> i \<and> i < length ys \<longrightarrow> ys ! i \<noteq> 0"
    using partition_cilk_partitions[OF std_partition_meets_spec,
        of "replicate 4096 (1::nat) @ replicate 4096 0" "\<lambda>x. x = 0"]
    by blast
  have "mid = 4096 \<and> ys = replicate 4096 0 @ replicate 4096 1"
    using ms mid z nz by (rule zeros_then_ones)
  then show ?thesis using r std_partition_meets_spec by simp
qed




end
